theory Spec2Isabelle
  imports Main "HOL-Library.AList"
begin

section \<open>Text and character classes\<close>

text \<open>
  The program is \<^verbatim>\<open>src/extension.ts\<close>. A text is a \<^typ>\<open>string\<close>; an offset is an index
  into it, as \<^verbatim>\<open>match.index\<close> is an index into the JavaScript string. Characters are the
  code units below 256, which covers every character the patterns of the program name.
\<close>

definition code :: "char \<Rightarrow> nat" where
  "code c = of_char c"

definition is_space :: "char \<Rightarrow> bool" where
  \<comment> \<open>\<^verbatim>\<open>\s\<close>: tab, line feed, vertical tab, form feed, carriage return, space, no-break space\<close>
  "is_space c = (code c \<in> {9, 10, 11, 12, 13, 32, 160})"

definition is_ident_start :: "char \<Rightarrow> bool" where
  \<comment> \<open>\<^verbatim>\<open>[a-zA-Z_]\<close>\<close>
  "is_ident_start c =
     ((97 \<le> code c \<and> code c \<le> 122) \<or> (65 \<le> code c \<and> code c \<le> 90) \<or> code c = 95)"

definition is_ident_char :: "char \<Rightarrow> bool" where
  \<comment> \<open>\<^verbatim>\<open>[a-zA-Z0-9_]\<close>, which is also \<^verbatim>\<open>\w\<close>\<close>
  "is_ident_char c = (is_ident_start c \<or> (48 \<le> code c \<and> code c \<le> 57))"

definition not_rparen :: "char \<Rightarrow> bool" where
  \<comment> \<open>\<^verbatim>\<open>[^)]\<close>\<close>
  "not_rparen c = (code c \<noteq> 41)"

definition any_char :: "char \<Rightarrow> bool" where
  \<comment> \<open>\<^verbatim>\<open>[\s\S]\<close>\<close>
  "any_char c = True"

definition not_newline :: "char \<Rightarrow> bool" where
  \<comment> \<open>\<^verbatim>\<open>.\<close>: every character but the line terminators\<close>
  "not_newline c = (code c \<noteq> 10 \<and> code c \<noteq> 13)"

section \<open>Regular expressions with backtracking\<close>

text \<open>
  The fragment of JavaScript regular expressions that the three patterns of the program
  use. Every \<^verbatim>\<open>*\<close> and \<^verbatim>\<open>+\<close> of the program applies to a character class, so the
  quantifiers take a class. A pattern has at most one capturing group.
\<close>

datatype rx =
    Lit string
  | Cls "char \<Rightarrow> bool"
  | Star "char \<Rightarrow> bool"
  | LazyStar "char \<Rightarrow> bool"
  | Opt rx
  | Alt rx rx
  | Seq rx rx
  | Group rx
  | WordB

definition Plus :: "(char \<Rightarrow> bool) \<Rightarrow> rx" where
  "Plus f = Seq (Cls f) (Star f)"

text \<open>
  A matcher state: the character before the current position (for \<^verbatim>\<open>\b\<close>), the text
  from the current position on, and the text captured by the group.
\<close>

type_synonym mstate = "char option \<times> string \<times> string"

fun last_char :: "char option \<Rightarrow> string \<Rightarrow> char option" where
  "last_char p [] = p"
| "last_char p (x # xs) = last_char (Some x) xs"

fun star_greedy :: "(char \<Rightarrow> bool) \<Rightarrow> mstate \<Rightarrow> mstate list" where
  "star_greedy f (p, [], g) = [(p, [], g)]"
| "star_greedy f (p, x # xs, g) =
     (if f x then star_greedy f (Some x, xs, g) @ [(p, x # xs, g)] else [(p, x # xs, g)])"

fun star_lazy :: "(char \<Rightarrow> bool) \<Rightarrow> mstate \<Rightarrow> mstate list" where
  "star_lazy f (p, [], g) = [(p, [], g)]"
| "star_lazy f (p, x # xs, g) =
     (p, x # xs, g) # (if f x then star_lazy f (Some x, xs, g) else [])"

definition is_word :: "char option \<Rightarrow> bool" where
  "is_word p = (case p of None \<Rightarrow> False | Some c \<Rightarrow> is_ident_char c)"

fun next_char :: "string \<Rightarrow> char option" where
  "next_char [] = None"
| "next_char (x # xs) = Some x"

text \<open>
  \<open>rx_match r st\<close> lists the states in which a match of \<open>r\<close> from \<open>st\<close> can end, in the
  order in which a backtracking matcher tries them: the match the engine reports is the
  first one.
\<close>

fun rx_match :: "rx \<Rightarrow> mstate \<Rightarrow> mstate list" where
  "rx_match (Lit w) (p, xs, g) =
     (if take (length w) xs = w then [(last_char p w, drop (length w) xs, g)] else [])"
| "rx_match (Cls f) (p, xs, g) =
     (case xs of [] \<Rightarrow> [] | x # xs' \<Rightarrow> if f x then [(Some x, xs', g)] else [])"
| "rx_match (Star f) st = star_greedy f st"
| "rx_match (LazyStar f) st = star_lazy f st"
| "rx_match (Opt r) st = rx_match r st @ [st]"
| "rx_match (Alt r1 r2) st = rx_match r1 st @ rx_match r2 st"
| "rx_match (Seq r1 r2) st = concat (map (rx_match r2) (rx_match r1 st))"
| "rx_match (Group r) (p, xs, g) =
     map (\<lambda>(p', xs', g'). (p', xs', take (length xs - length xs') xs)) (rx_match r (p, xs, g))"
| "rx_match WordB (p, xs, g) =
     (if is_word p \<noteq> is_word (next_char xs) then [(p, xs, g)] else [])"

text \<open>
  \<open>rx_exec r p xs i\<close> is \<^verbatim>\<open>r.exec(text)\<close> for a global pattern whose \<^verbatim>\<open>lastIndex\<close> is
  \<open>i\<close>, where \<open>xs\<close> is the text from \<open>i\<close> on and \<open>p\<close> the character before it: the first
  index from \<open>i\<close> on at which the pattern matches, with the state after the match.
\<close>

fun rx_exec :: "rx \<Rightarrow> char option \<Rightarrow> string \<Rightarrow> nat \<Rightarrow> (nat \<times> mstate) option" where
  "rx_exec r p [] i = (case rx_match r (p, [], []) of [] \<Rightarrow> None | st # _ \<Rightarrow> Some (i, st))"
| "rx_exec r p (x # xs) i =
     (case rx_match r (p, x # xs, []) of
        [] \<Rightarrow> rx_exec r (Some x) xs (Suc i)
      | st # _ \<Rightarrow> Some (i, st))"

text \<open>
  The loop \<^verbatim>\<open>while ((match = r.exec(text)) !== null) { ... }\<close>, collecting
  \<^verbatim>\<open>(match.index, match[1])\<close>. After an empty match \<^verbatim>\<open>lastIndex\<close> stays where it is
  and the loop of the source never ends: the result is then \<open>None\<close>.
\<close>

function exec_loop :: "rx \<Rightarrow> char option \<Rightarrow> string \<Rightarrow> nat \<Rightarrow> (nat \<times> string) list option" where
  "exec_loop r p xs i =
     (case rx_exec r p xs i of
        None \<Rightarrow> Some []
      | Some (j, (p', xs', g)) \<Rightarrow>
          if length xs' < length xs
          then map_option ((#) (j, g)) (exec_loop r p' xs' (i + (length xs - length xs')))
          else None)"
  by pat_completeness auto
termination
  by (relation "measure (\<lambda>(r, p, xs, i). length xs)") auto

declare exec_loop.simps [simp del]

definition exec_all :: "rx \<Rightarrow> string \<Rightarrow> (nat \<times> string) list option" where
  "exec_all r text = exec_loop r None text 0"

text \<open>
  \<^verbatim>\<open>text.replace(r, '')\<close> for a global pattern: every match is removed, and the search
  goes on after it. (After an empty match \<^verbatim>\<open>replace\<close> steps one character forward.)
\<close>

function replace_loop :: "rx \<Rightarrow> char option \<Rightarrow> string \<Rightarrow> string" where
  "replace_loop r p xs =
     (case rx_exec r p xs 0 of
        None \<Rightarrow> xs
      | Some (j, (p', xs', g)) \<Rightarrow>
          if length xs' < length xs
          then take j xs @ replace_loop r p' xs'
          else (case xs of [] \<Rightarrow> [] | x # t \<Rightarrow> x # replace_loop r (Some x) t))"
  by pat_completeness auto
termination
  by (relation "measure (\<lambda>(r, p, xs). length xs)") auto

declare replace_loop.simps [simp del]

section \<open>The three patterns\<close>

definition keyword :: rx where
  \<comment> \<open>\<^verbatim>\<open>(?:void|int|float|double|char|bool|static)\<close>\<close>
  "keyword =
     Alt (Lit ''void'') (Alt (Lit ''int'') (Alt (Lit ''float'') (Alt (Lit ''double'')
       (Alt (Lit ''char'') (Alt (Lit ''bool'') (Lit ''static''))))))"

definition ident_rx :: rx where
  \<comment> \<open>\<^verbatim>\<open>([a-zA-Z_][a-zA-Z0-9_]*)\<close>\<close>
  "ident_rx = Group (Seq (Cls is_ident_start) (Star is_ident_char))"

definition funcRegex :: rx where
  \<comment> \<open>\<^verbatim>\<open>/(?:void|int|float|double|char|bool|static)\s+([a-zA-Z_][a-zA-Z0-9_]*)\s*\([^)]*\)\s*(?:{)?/g\<close>\<close>
  "funcRegex =
     Seq keyword (Seq (Plus is_space) (Seq ident_rx (Seq (Star is_space)
       (Seq (Lit ''('') (Seq (Star not_rparen) (Seq (Lit '')'') (Seq (Star is_space)
         (Opt (Lit ''{'')))))))))"

definition commentRegex :: rx where
  \<comment> \<open>\<^verbatim>\<open>/\/\*[\s\S]*?\*\/|\/\/.*/g\<close>\<close>
  "commentRegex =
     Alt (Seq (Lit ''/*'') (Seq (LazyStar any_char) (Lit ''*/'')))
         (Seq (Lit ''//'') (Star not_newline))"

definition callRegex :: rx where
  \<comment> \<open>\<^verbatim>\<open>/\b([a-zA-Z_][a-zA-Z0-9_]*)\s*\(/g\<close>\<close>
  "callRegex = Seq WordB (Seq ident_rx (Seq (Star is_space) (Lit ''('')))"

section \<open>Paths\<close>

text \<open>
  \<^verbatim>\<open>path.extname\<close> and \<^verbatim>\<open>path.basename\<close> of Node.js for POSIX paths that do not end
  in a slash, which is what \<open>walkFiles\<close> produces. The extension runs from the last dot of
  the last component, unless that dot is the component's first character or the component
  is \<^verbatim>\<open>..\<close>.
\<close>

definition last_component :: "string \<Rightarrow> string" where
  "last_component p = rev (takeWhile (\<lambda>c. c \<noteq> CHR ''/'') (rev p))"

definition extname :: "string \<Rightarrow> string" where
  "extname p =
     (let b = last_component p;
          e = rev (takeWhile (\<lambda>c. c \<noteq> CHR ''.'') (rev b))
      in if CHR ''.'' \<notin> set b \<or> Suc (length e) = length b \<or> b = ''..'' then []
         else CHR ''.'' # e)"

definition basename :: "string \<Rightarrow> string \<Rightarrow> string" where
  "basename p ext =
     (let b = last_component p
      in if ext \<noteq> [] \<and> length ext < length b \<and> drop (length b - length ext) b = ext
         then take (length b - length ext) b
         else if ext \<noteq> [] \<and> ext = p then [] else b)"

definition path_join :: "string \<Rightarrow> string \<Rightarrow> string" where
  \<comment> \<open>\<^verbatim>\<open>path.join(dir, file)\<close> for a normalised \<open>dir\<close> and a directory entry \<open>file\<close>\<close>
  "path_join dir file = dir @ ''/'' @ file"

section \<open>Data model\<close>

record FunctionDef =
  name :: string
  module :: string
  start :: nat

record Edge =
  fromModule :: string
  toModule :: string
  "functions" :: "string list"

record Graph =
  modules :: "string list"
  edges :: "Edge list"

text \<open>
  What ends a run without a graph: an exception of the file system, a loop that does not
  end, a method call on \<^verbatim>\<open>undefined\<close>, and the early return of the command when no
  source file was found.
\<close>

datatype error =
    FsError string
  | Diverges
  | TypeError
  | NoSourceFiles

text \<open>
  A JavaScript \<^verbatim>\<open>Map\<close> with string keys is an association list in insertion order:
  \<^verbatim>\<open>m.get(k)\<close> is \<^term>\<open>map_of m k\<close>, and \<^verbatim>\<open>m.set(k, v)\<close> is
  \<^term>\<open>AList.update k v m\<close>, which replaces the value of a key in place and puts a
  new key last.
\<close>

type_synonym 'v jsmap = "(string \<times> 'v) list"

section \<open>Phase 1: function definitions\<close>

definition moduleName_of :: "string \<Rightarrow> string" where
  \<comment> \<open>\<^verbatim>\<open>path.basename(file, path.extname(file))\<close>\<close>
  "moduleName_of file = basename file (extname file)"

text \<open>The body of the loop over the matches of \<open>funcRegex\<close> (lines 57 to 61).\<close>

definition def_step ::
  "string \<Rightarrow> FunctionDef list \<times> FunctionDef jsmap \<Rightarrow> nat \<times> string
     \<Rightarrow> FunctionDef list \<times> FunctionDef jsmap" where
  "def_step fileName st m =
     (case st of (funcs, defs) \<Rightarrow> case m of (index, g) \<Rightarrow>
        (let funcDef = \<lparr>name = g, module = fileName, start = index\<rparr>
         in (funcs @ [funcDef], AList.update (name funcDef) funcDef defs)))"

text \<open>The loop over the files (lines 50 to 64).\<close>

fun collectDefs ::
  "(string \<Rightarrow> string option) \<Rightarrow> string list \<Rightarrow> FunctionDef jsmap \<times> FunctionDef list jsmap
     \<Rightarrow> error + FunctionDef jsmap \<times> FunctionDef list jsmap" where
  "collectDefs readFile [] st = Inr st"
| "collectDefs readFile (file # files) (defs, fileFuncMap) =
     (case readFile file of
        None \<Rightarrow> Inl (FsError file)
      | Some text \<Rightarrow>
          (case exec_all funcRegex text of
             None \<Rightarrow> Inl Diverges
           | Some ms \<Rightarrow>
               (case foldl (def_step (moduleName_of file)) ([], defs) ms of
                  (funcs, defs') \<Rightarrow>
                    collectDefs readFile files (defs', AList.update file funcs fileFuncMap))))"

section \<open>Phase 2: calls and edges\<close>

definition stripComments :: "string \<Rightarrow> string" where
  \<comment> \<open>\<^verbatim>\<open>text.replace(/\/\*[\s\S]*?\*\/|\/\/.*/g, '')\<close>\<close>
  "stripComments text = replace_loop commentRegex None text"

definition callerFunc :: "FunctionDef list \<Rightarrow> string \<Rightarrow> nat \<Rightarrow> FunctionDef" where
  \<comment> \<open>lines 82 and 83\<close>
  "callerFunc funcsInFile moduleName matchIndex =
     (case filter (\<lambda>f. start f \<le> matchIndex) funcsInFile of
        [] \<Rightarrow> \<lparr>name = ''<module>'', module = moduleName, start = 0\<rparr>
      | f # fs \<Rightarrow> last (f # fs))"

definition edge_key :: "string \<Rightarrow> string \<Rightarrow> string" where
  "edge_key a b = a @ ''->'' @ b"

text \<open>The body of the loop over the matches of \<open>callRegex\<close> (lines 79 to 93).\<close>

definition call_step ::
  "FunctionDef jsmap \<Rightarrow> FunctionDef list \<Rightarrow> string \<Rightarrow> Edge jsmap \<Rightarrow> nat \<times> string
     \<Rightarrow> Edge jsmap" where
  "call_step defs funcsInFile moduleName edgesMap m =
     (case m of (matchIndex, calleeName) \<Rightarrow>
        (let caller = callerFunc funcsInFile moduleName matchIndex
         in case map_of defs calleeName of
              None \<Rightarrow> edgesMap
            | Some calleeDef \<Rightarrow>
                if module caller = module calleeDef then edgesMap
                else
                  (let key = edge_key (module caller) (module calleeDef);
                       edgesMap1 =
                         (if map_of edgesMap key = None
                          then AList.update key
                                 \<lparr>fromModule = module caller, toModule = module calleeDef,
                                  functions = []\<rparr> edgesMap
                          else edgesMap)
                   in case map_of edgesMap1 key of
                        None \<Rightarrow> edgesMap1
                      | Some edge \<Rightarrow>
                          if calleeName \<in> set (functions edge) then edgesMap1
                          else AList.update key
                                 (edge\<lparr>functions := functions edge @ [calleeName]\<rparr>) edgesMap1)))"

text \<open>The loop over the files (lines 69 to 95).\<close>

fun collectEdges ::
  "(string \<Rightarrow> string option) \<Rightarrow> FunctionDef jsmap \<Rightarrow> FunctionDef list jsmap \<Rightarrow> string list
     \<Rightarrow> Edge jsmap \<Rightarrow> error + Edge jsmap" where
  "collectEdges readFile defs fileFuncMap [] edgesMap = Inr edgesMap"
| "collectEdges readFile defs fileFuncMap (file # files) edgesMap =
     (case readFile file of
        None \<Rightarrow> Inl (FsError file)
      | Some text \<Rightarrow>
          (case map_of fileFuncMap file of
             None \<Rightarrow> Inl TypeError
           | Some funcsInFile \<Rightarrow>
               (case exec_all callRegex (stripComments text) of
                  None \<Rightarrow> Inl Diverges
                | Some ms \<Rightarrow>
                    collectEdges readFile defs fileFuncMap files
                      (foldl (call_step defs funcsInFile (moduleName_of file)) edgesMap ms))))"

section \<open>The graph\<close>

fun js_set :: "string list \<Rightarrow> string list \<Rightarrow> string list" where
  \<comment> \<open>\<^verbatim>\<open>Array.from(new Set(xs))\<close>: the first occurrence of each element, in order\<close>
  "js_set acc [] = acc"
| "js_set acc (x # xs) = js_set (if x \<in> set acc then acc else acc @ [x]) xs"

definition callGraph :: "(string \<Rightarrow> string option) \<Rightarrow> string list \<Rightarrow> error + Graph" where
  \<comment> \<open>lines 46 to 105: the module names declared and the edges drawn\<close>
  "callGraph readFile files =
     (case collectDefs readFile files ([], []) of
        Inl e \<Rightarrow> Inl e
      | Inr (defs, fileFuncMap) \<Rightarrow>
          (case collectEdges readFile defs fileFuncMap files [] of
             Inl e \<Rightarrow> Inl e
           | Inr edgesMap \<Rightarrow>
               Inr \<lparr>modules = js_set [] (map (\<lambda>(k, d). module d) defs),
                    edges = map snd edgesMap\<rparr>))"

section \<open>The file collector\<close>

text \<open>
  The directory tree under the selected folder. \<^verbatim>\<open>readdirSync\<close> throws on a
  directory that cannot be read.
\<close>

datatype entry =
    RegularFile
  | Directory "(string \<times> entry) list"
  | UnreadableDirectory

fun isDirectory :: "entry \<Rightarrow> bool" where
  "isDirectory RegularFile = False"
| "isDirectory (Directory list) = True"
| "isDirectory UnreadableDirectory = True"

fun walkFiles :: "entry \<Rightarrow> string \<Rightarrow> string list \<Rightarrow> error + string list"
  and walkList :: "(string \<times> entry) list \<Rightarrow> string \<Rightarrow> string list \<Rightarrow> string list
     \<Rightarrow> error + string list" where
  "walkFiles RegularFile dir exts = Inl (FsError dir)"
| "walkFiles UnreadableDirectory dir exts = Inl (FsError dir)"
| "walkFiles (Directory list) dir exts = walkList list dir exts []"
| "walkList [] dir exts results = Inr results"
| "walkList ((file, node) # list) dir exts results =
     (let filePath = path_join dir file
      in if isDirectory node
         then (case walkFiles node filePath exts of
                 Inl e \<Rightarrow> Inl e
               | Inr sub \<Rightarrow> walkList list dir exts (results @ sub))
         else if extname file \<in> set exts then walkList list dir exts (results @ [filePath])
         else walkList list dir exts results)"

definition generate ::
  "entry \<Rightarrow> string \<Rightarrow> (string \<Rightarrow> string option) \<Rightarrow> error + Graph" where
  \<comment> \<open>lines 39 to 105, from the selected folder to the graph\<close>
  "generate tree selectedFolder readFile =
     (case walkFiles tree selectedFolder [''.c'', ''.cpp'', ''.hpp'', ''.h''] of
        Inl e \<Rightarrow> Inl e
      | Inr files \<Rightarrow> if files = [] then Inl NoSourceFiles else callGraph readFile files)"

section \<open>Notions used in the statements and proofs\<close>

text \<open>The seven words one of which \<open>funcRegex\<close> requires before the name.\<close>

definition type_keywords :: "string list" where
  "type_keywords = [''void'', ''int'', ''float'', ''double'', ''char'', ''bool'', ''static'']"

text \<open>
  The shape of the text that \<open>funcRegex\<close> matches: \<open>xs\<close> is the text from the start of the
  match, \<open>g\<close> the captured name and \<open>xs'\<close> the text after the match.
\<close>

definition signature_shape :: "string \<Rightarrow> string \<Rightarrow> string \<Rightarrow> bool" where
  "signature_shape xs g xs' =
     (\<exists>kw ws x ys ws2 ps ws3 br.
        kw \<in> set type_keywords \<and> ws \<noteq> [] \<and> (\<forall>c\<in>set ws. is_space c) \<and>
        is_ident_start x \<and> (\<forall>c\<in>set ys. is_ident_char c) \<and> (\<forall>c\<in>set ws2. is_space c) \<and>
        (\<forall>c\<in>set ps. c \<noteq> CHR '')'') \<and> (\<forall>c\<in>set ws3. is_space c) \<and> (br = [] \<or> br = ''{'') \<and>
        g = x # ys \<and>
        xs = kw @ ws @ g @ ws2 @ ''('' @ ps @ '')'' @ ws3 @ br @ xs')"

text \<open>A pattern is consuming when none of its matches is empty.\<close>

definition consuming :: "rx \<Rightarrow> bool" where
  "consuming r =
     (\<forall>p xs g p' xs' g'. (p', xs', g') \<in> set (rx_match r (p, xs, g)) \<longrightarrow> length xs' < length xs)"

text \<open>
  For a text \<open>pre @ suf\<close> read from a position whose previous character is \<open>p\<close>: the
  pattern matches at no position inside \<open>pre\<close>; its reported match at the end of \<open>pre\<close>
  is \<open>st\<close>; every match that starts inside \<open>pre\<close> ends inside \<open>pre\<close>.
\<close>

definition fails_before :: "rx \<Rightarrow> char option \<Rightarrow> string \<Rightarrow> string \<Rightarrow> bool" where
  "fails_before r p pre suf =
     (\<forall>a b. pre = a @ b \<and> b \<noteq> [] \<longrightarrow> rx_match r (last_char p a, b @ suf, []) = [])"

definition found_at :: "rx \<Rightarrow> char option \<Rightarrow> string \<Rightarrow> string \<Rightarrow> mstate \<Rightarrow> bool" where
  "found_at r p pre suf st =
     ((\<exists>rest. rx_match r (last_char p pre, suf, []) = st # rest) \<and> fails_before r p pre suf)"

definition ends_before :: "rx \<Rightarrow> char option \<Rightarrow> string \<Rightarrow> string \<Rightarrow> bool" where
  "ends_before r p pre suf =
     (\<forall>a b p' xs' g'. pre = a @ b \<and> b \<noteq> [] \<and>
        (p', xs', g') \<in> set (rx_match r (last_char p a, b @ suf, [])) \<longrightarrow> length suf \<le> length xs')"

text \<open>
  The Definition Scanner and the Call Scanner of one file, as the loops of the two phases
  compute them: the definitions that \<open>collectDefs\<close> pushes to \<open>funcs\<close>, and the matches of
  \<open>callRegex\<close> in the text without comments.
\<close>

definition all_matches :: "rx \<Rightarrow> string \<Rightarrow> (nat \<times> string) list" where
  "all_matches r text = (case exec_all r text of None \<Rightarrow> [] | Some ms \<Rightarrow> ms)"

definition mkDef :: "string \<Rightarrow> nat \<times> string \<Rightarrow> FunctionDef" where
  "mkDef fileName m = (case m of (index, g) \<Rightarrow> \<lparr>name = g, module = fileName, start = index\<rparr>)"

definition scanDefs :: "string \<Rightarrow> string \<Rightarrow> FunctionDef list" where
  "scanDefs file text = map (mkDef (moduleName_of file)) (all_matches funcRegex text)"

definition scanCalls :: "string \<Rightarrow> (nat \<times> string) list" where
  "scanCalls text = all_matches callRegex (stripComments text)"

definition textOf :: "(string \<Rightarrow> string option) \<Rightarrow> string \<Rightarrow> string" where
  "textOf readFile file = (case readFile file of None \<Rightarrow> [] | Some text \<Rightarrow> text)"

text \<open>The symbol table after a sequence of \<^verbatim>\<open>defs.set(funcDef.name, funcDef)\<close>.\<close>

definition addDefs :: "FunctionDef jsmap \<Rightarrow> FunctionDef list \<Rightarrow> FunctionDef jsmap" where
  "addDefs defs funcs = foldl (\<lambda>d f. AList.update (name f) f d) defs funcs"

definition allDefs :: "(string \<Rightarrow> string option) \<Rightarrow> string list \<Rightarrow> FunctionDef list" where
  "allDefs readFile files = concat (map (\<lambda>f. scanDefs f (textOf readFile f)) files)"

fun defsPhase ::
  "(string \<Rightarrow> string option) \<Rightarrow> string list \<Rightarrow> FunctionDef jsmap \<times> FunctionDef list jsmap
     \<Rightarrow> FunctionDef jsmap \<times> FunctionDef list jsmap" where
  "defsPhase readFile [] st = st"
| "defsPhase readFile (file # files) (defs, fileFuncMap) =
     defsPhase readFile files
       (addDefs defs (scanDefs file (textOf readFile file)),
        AList.update file (scanDefs file (textOf readFile file)) fileFuncMap)"

text \<open>
  A call that passes the two \<^verbatim>\<open>continue\<close> tests of the loop body contributes the
  triple of the caller's module, the callee's module and the callee's name; \<open>add_edge\<close> is
  what the rest of the loop body does with it.
\<close>

definition call_triple ::
  "FunctionDef jsmap \<Rightarrow> FunctionDef list \<Rightarrow> string \<Rightarrow> nat \<times> string
     \<Rightarrow> (string \<times> string \<times> string) option" where
  "call_triple defs funcsInFile moduleName m =
     (case m of (matchIndex, calleeName) \<Rightarrow>
        (case map_of defs calleeName of
           None \<Rightarrow> None
         | Some calleeDef \<Rightarrow>
             if module (callerFunc funcsInFile moduleName matchIndex) = module calleeDef then None
             else Some (module (callerFunc funcsInFile moduleName matchIndex),
                        module calleeDef, calleeName)))"

definition add_edge :: "Edge jsmap \<Rightarrow> string \<times> string \<times> string \<Rightarrow> Edge jsmap" where
  "add_edge edgesMap t =
     (case t of (a, b, calleeName) \<Rightarrow>
        (let key = edge_key a b;
             edgesMap1 =
               (if map_of edgesMap key = None
                then AList.update key \<lparr>fromModule = a, toModule = b, functions = []\<rparr> edgesMap
                else edgesMap)
         in case map_of edgesMap1 key of
              None \<Rightarrow> edgesMap1
            | Some edge \<Rightarrow>
                if calleeName \<in> set (functions edge) then edgesMap1
                else AList.update key (edge\<lparr>functions := functions edge @ [calleeName]\<rparr>) edgesMap1))"

definition file_triples ::
  "(string \<Rightarrow> string option) \<Rightarrow> FunctionDef jsmap \<Rightarrow> string \<Rightarrow> (string \<times> string \<times> string) list" where
  "file_triples readFile defs file =
     List.map_filter
       (call_triple defs (scanDefs file (textOf readFile file)) (moduleName_of file))
       (scanCalls (textOf readFile file))"

definition all_triples ::
  "(string \<Rightarrow> string option) \<Rightarrow> FunctionDef jsmap \<Rightarrow> string list
     \<Rightarrow> (string \<times> string \<times> string) list" where
  "all_triples readFile defs files = concat (map (file_triples readFile defs) files)"

text \<open>
  The edge set of a graph: the pairs of modules, each with the set of the function names
  on its edge.
\<close>

definition edge_set :: "Graph \<Rightarrow> (string \<times> string \<times> string set) set" where
  "edge_set g = (\<lambda>e. (fromModule e, toModule e, set (functions e))) ` set (edges g)"

text \<open>The symbol table and the edge map of a run over readable files.\<close>

definition symbolTable :: "(string \<Rightarrow> string option) \<Rightarrow> string list \<Rightarrow> FunctionDef jsmap" where
  "symbolTable readFile files = addDefs [] (allDefs readFile files)"

definition edgesMap_of :: "(string \<Rightarrow> string option) \<Rightarrow> string list \<Rightarrow> Edge jsmap" where
  "edgesMap_of readFile files =
     foldl add_edge [] (all_triples readFile (symbolTable readFile files) files)"

section \<open>Example inputs\<close>

definition example1 :: "string \<Rightarrow> string option" where
  "example1 =
     map_of [(''/proj/a.c'', ''int main(){ bar(); }''), (''/proj/b.c'', ''void bar(){}'')]"

definition example1_tree :: entry where
  "example1_tree = Directory [(''a.c'', RegularFile), (''b.c'', RegularFile)]"


text \<open>A header whose macro calls a function of another file, and holds no definition.\<close>

definition example2 :: "string \<Rightarrow> string option" where
  "example2 =
     map_of [(''/proj/a.c'', ''#define RUN() bar()''), (''/proj/b.c'', ''void bar(){}'')]"

text \<open>A call before any definition of its file.\<close>

definition example3 :: "string \<Rightarrow> string option" where
  "example3 = map_of [(''/proj/a.c'', ''bar();'')]"

section \<open>What the matcher computes\<close>

lemma last_char_append: "last_char p (xs @ ys) = last_char (last_char p xs) ys"
  by (induction xs arbitrary: p) auto

lemma star_greedy_iff:
  "(p', xs', g') \<in> set (star_greedy f (p, xs, g)) \<longleftrightarrow>
     (\<exists>ys. xs = ys @ xs' \<and> (\<forall>c\<in>set ys. f c) \<and> p' = last_char p ys \<and> g' = g)"
proof (induction xs arbitrary: p)
  case Nil
  show ?case by auto
next
  case (Cons x xs)
  show ?case
  proof (cases "f x")
    case True
    have "(p', xs', g') \<in> set (star_greedy f (p, x # xs, g)) \<longleftrightarrow>
          (p', xs', g') \<in> set (star_greedy f (Some x, xs, g)) \<or> (p', xs', g') = (p, x # xs, g)"
      using True by auto
    also have "\<dots> \<longleftrightarrow>
        (\<exists>ys. xs = ys @ xs' \<and> (\<forall>c\<in>set ys. f c) \<and> p' = last_char (Some x) ys \<and> g' = g)
        \<or> (p', xs', g') = (p, x # xs, g)"
      by (simp only: Cons.IH)
    also have "\<dots> \<longleftrightarrow>
        (\<exists>ys. x # xs = ys @ xs' \<and> (\<forall>c\<in>set ys. f c) \<and> p' = last_char p ys \<and> g' = g)"
      (is "?L \<longleftrightarrow> ?R")
    proof
      assume ?L
      then show ?R
      proof
        assume "\<exists>ys. xs = ys @ xs' \<and> (\<forall>c\<in>set ys. f c) \<and> p' = last_char (Some x) ys \<and> g' = g"
        then obtain ys where
          "xs = ys @ xs'" "\<forall>c\<in>set ys. f c" "p' = last_char (Some x) ys" "g' = g"
          by (elim exE conjE)
        then have "x # xs = (x # ys) @ xs' \<and> (\<forall>c\<in>set (x # ys). f c) \<and>
            p' = last_char p (x # ys) \<and> g' = g"
          using True by simp
        then show ?R by (rule exI)
      next
        assume "(p', xs', g') = (p, x # xs, g)"
        then have "x # xs = [] @ xs' \<and> (\<forall>c\<in>set []. f c) \<and> p' = last_char p [] \<and> g' = g"
          by simp
        then show ?R by (rule exI)
      qed
    next
      assume ?R
      then obtain ys where
        ys: "x # xs = ys @ xs'" "\<forall>c\<in>set ys. f c" "p' = last_char p ys" "g' = g"
        by (elim exE conjE)
      show ?L
      proof (cases ys)
        case Nil
        with ys show ?thesis by simp
      next
        case c: (Cons y ys')
        with ys have "xs = ys' @ xs' \<and> (\<forall>c\<in>set ys'. f c) \<and>
            p' = last_char (Some x) ys' \<and> g' = g"
          by simp
        then have "\<exists>ys. xs = ys @ xs' \<and> (\<forall>c\<in>set ys. f c) \<and>
            p' = last_char (Some x) ys \<and> g' = g"
          by (rule exI)
        then show ?thesis by (rule disjI1)
      qed
    qed
    finally show ?thesis .
  next
    case False
    have "(p', xs', g') \<in> set (star_greedy f (p, x # xs, g)) \<longleftrightarrow>
        (p', xs', g') = (p, x # xs, g)"
      using False by auto
    also have "\<dots> \<longleftrightarrow>
        (\<exists>ys. x # xs = ys @ xs' \<and> (\<forall>c\<in>set ys. f c) \<and> p' = last_char p ys \<and> g' = g)"
      (is "?L \<longleftrightarrow> ?R")
    proof
      assume ?L
      then have "x # xs = [] @ xs' \<and> (\<forall>c\<in>set []. f c) \<and> p' = last_char p [] \<and> g' = g"
        by simp
      then show ?R by (rule exI)
    next
      assume ?R
      then obtain ys where
        ys: "x # xs = ys @ xs'" "\<forall>c\<in>set ys. f c" "p' = last_char p ys" "g' = g"
        by (elim exE conjE)
      show ?L
      proof (cases ys)
        case Nil
        with ys show ?thesis by simp
      next
        case c: (Cons y ys')
        with ys False show ?thesis by simp
      qed
    qed
    finally show ?thesis .
  qed
qed

lemma star_lazy_set: "set (star_lazy f (p, xs, g)) = set (star_greedy f (p, xs, g))"
  by (induction xs arbitrary: p) auto

lemma lit_iff:
  "(p', xs', g') \<in> set (rx_match (Lit w) (p, xs, g)) \<longleftrightarrow>
     xs = w @ xs' \<and> p' = last_char p w \<and> g' = g"
proof -
  have "take (length w) xs = w \<and> xs' = drop (length w) xs \<longleftrightarrow> xs = w @ xs'"
    by (metis append_eq_conv_conj)
  then show ?thesis by auto
qed

lemma cls_iff:
  "(p', xs', g') \<in> set (rx_match (Cls f) (p, xs, g)) \<longleftrightarrow>
     (\<exists>x. xs = x # xs' \<and> f x \<and> p' = Some x \<and> g' = g)"
  by (auto split: list.splits)

lemma star_iff:
  "(p', xs', g') \<in> set (rx_match (Star f) (p, xs, g)) \<longleftrightarrow>
     (\<exists>ys. xs = ys @ xs' \<and> (\<forall>c\<in>set ys. f c) \<and> p' = last_char p ys \<and> g' = g)"
  by (simp only: rx_match.simps star_greedy_iff)

lemma seq_iff3:
  "(p2, xs2, g2) \<in> set (rx_match (Seq a b) (p, xs, g)) \<longleftrightarrow>
     (\<exists>p1 xs1 g1. (p1, xs1, g1) \<in> set (rx_match a (p, xs, g)) \<and>
        (p2, xs2, g2) \<in> set (rx_match b (p1, xs1, g1)))"
  by auto

lemma seqE:
  assumes "(p2, xs2, g2) \<in> set (rx_match (Seq a b) (p, xs, g))"
  obtains p1 xs1 g1 where "(p1, xs1, g1) \<in> set (rx_match a (p, xs, g))"
    and "(p2, xs2, g2) \<in> set (rx_match b (p1, xs1, g1))"
  using assms by (simp only: seq_iff3) (elim exE conjE)

lemma seqI:
  "(p1, xs1, g1) \<in> set (rx_match a (p, xs, g)) \<Longrightarrow>
   (p2, xs2, g2) \<in> set (rx_match b (p1, xs1, g1)) \<Longrightarrow>
   (p2, xs2, g2) \<in> set (rx_match (Seq a b) (p, xs, g))"
  by (simp only: seq_iff3) (intro exI conjI)

lemma alt_iff:
  "s \<in> set (rx_match (Alt a b) s0) \<longleftrightarrow> s \<in> set (rx_match a s0) \<or> s \<in> set (rx_match b s0)"
  by simp

lemma opt_iff:
  "s \<in> set (rx_match (Opt a) s0) \<longleftrightarrow> s \<in> set (rx_match a s0) \<or> s = s0"
  by auto

lemma group_iff:
  "(p', xs', g') \<in> set (rx_match (Group r) (p, xs, g)) \<longleftrightarrow>
     (\<exists>g0. (p', xs', g0) \<in> set (rx_match r (p, xs, g)) \<and>
        g' = take (length xs - length xs') xs)"
  by force

lemma wordb_iff:
  "(p', xs', g') \<in> set (rx_match WordB (p, xs, g)) \<longleftrightarrow>
     p' = p \<and> xs' = xs \<and> g' = g \<and> is_word p \<noteq> is_word (next_char xs)"
  by auto

text \<open>A match ends at a suffix of the text it started from.\<close>

lemma rx_match_suffix:
  "(p', xs', g') \<in> set (rx_match r (p, xs, g)) \<Longrightarrow> \<exists>ys. xs = ys @ xs' \<and> p' = last_char p ys"
proof (induction r arbitrary: p xs g p' xs' g')
  case (Lit w)
  then have "xs = w @ xs' \<and> p' = last_char p w" by (simp only: lit_iff)
  then show ?case by (rule exI)
next
  case (Cls f)
  from Cls [unfolded cls_iff] obtain x where "xs = x # xs'" "p' = Some x" by (elim exE conjE)
  then have "xs = [x] @ xs' \<and> p' = last_char p [x]" by simp
  then show ?case by (rule exI)
next
  case (Star f)
  from Star [unfolded star_iff] obtain ys where "xs = ys @ xs'" "p' = last_char p ys"
    by (elim exE conjE)
  then have "xs = ys @ xs' \<and> p' = last_char p ys" by simp
  then show ?case by (rule exI)
next
  case (LazyStar f)
  then have "(p', xs', g') \<in> set (star_greedy f (p, xs, g))" by (simp add: star_lazy_set)
  from this [unfolded star_greedy_iff] obtain ys where "xs = ys @ xs'" "p' = last_char p ys"
    by (elim exE conjE)
  then have "xs = ys @ xs' \<and> p' = last_char p ys" by simp
  then show ?case by (rule exI)
next
  case (Opt r)
  from Opt.prems have "(p', xs', g') \<in> set (rx_match r (p, xs, g)) \<or> (p', xs', g') = (p, xs, g)"
    by auto
  then show ?case
  proof
    assume "(p', xs', g') \<in> set (rx_match r (p, xs, g))"
    then show ?thesis by (rule Opt.IH)
  next
    assume "(p', xs', g') = (p, xs, g)"
    then have "xs = [] @ xs' \<and> p' = last_char p []" by simp
    then show ?thesis by (rule exI)
  qed
next
  case (Alt r1 r2)
  from Alt.prems have "(p', xs', g') \<in> set (rx_match r1 (p, xs, g)) \<or>
      (p', xs', g') \<in> set (rx_match r2 (p, xs, g))"
    by simp
  then show ?case
  proof
    assume "(p', xs', g') \<in> set (rx_match r1 (p, xs, g))"
    then show ?thesis by (rule Alt.IH(1))
  next
    assume "(p', xs', g') \<in> set (rx_match r2 (p, xs, g))"
    then show ?thesis by (rule Alt.IH(2))
  qed
next
  case (Seq r1 r2)
  from Seq.prems obtain p1 xs1 g1 where
    a: "(p1, xs1, g1) \<in> set (rx_match r1 (p, xs, g))" and
    b: "(p', xs', g') \<in> set (rx_match r2 (p1, xs1, g1))"
    by (rule seqE)
  from Seq.IH(1) [OF a] obtain ys where ys: "xs = ys @ xs1" "p1 = last_char p ys"
    by (elim exE conjE)
  from Seq.IH(2) [OF b] obtain zs where zs: "xs1 = zs @ xs'" "p' = last_char p1 zs"
    by (elim exE conjE)
  have "xs = (ys @ zs) @ xs' \<and> p' = last_char p (ys @ zs)"
    using ys zs by (simp add: last_char_append)
  then show ?case by (rule exI)
next
  case (Group r)
  from Group.prems [unfolded group_iff] obtain g0 where
    "(p', xs', g0) \<in> set (rx_match r (p, xs, g))"
    by (elim exE conjE)
  then show ?case by (rule Group.IH)
next
  case WordB
  from WordB [unfolded wordb_iff] have "xs = [] @ xs' \<and> p' = last_char p []" by simp
  then show ?case by (rule exI)
qed

subsection \<open>Character classes\<close>

lemma code_inj: "code c = code d \<longleftrightarrow> c = d"
  by (simp add: code_def)

lemma code_lparen: "code (CHR ''('') = 40"
  by (simp add: code_def)

lemma code_rparen: "code (CHR '')'') = 41"
  by (simp add: code_def)

lemma space_not_ident: "is_space c \<Longrightarrow> \<not> is_ident_char c"
  by (auto simp: is_space_def is_ident_char_def is_ident_start_def)

lemma ident_start_char: "is_ident_start c \<Longrightarrow> is_ident_char c"
  by (simp add: is_ident_char_def)

lemma space_not_lparen: "is_space c \<Longrightarrow> c \<noteq> CHR ''(''"
  by (auto simp: is_space_def code_lparen)

lemma ident_not_lparen: "is_ident_char c \<Longrightarrow> c \<noteq> CHR ''(''"
  by (auto simp: is_ident_char_def is_ident_start_def code_lparen)

lemma not_rparen_iff: "not_rparen c \<longleftrightarrow> c \<noteq> CHR '')''"
  using code_inj [of c "CHR '')''"] by (simp add: not_rparen_def code_rparen)

subsection \<open>The patterns of the program\<close>

lemma keyword_iff:
  "(p', xs', g') \<in> set (rx_match keyword (p, xs, g)) \<longleftrightarrow>
     (\<exists>kw\<in>set type_keywords. xs = kw @ xs' \<and> p' = last_char p kw \<and> g' = g)"
  unfolding keyword_def type_keywords_def
  by (simp only: alt_iff lit_iff) auto

lemma plus_iff:
  "(p', xs', g') \<in> set (rx_match (Plus f) (p, xs, g)) \<longleftrightarrow>
     (\<exists>ys. ys \<noteq> [] \<and> xs = ys @ xs' \<and> (\<forall>c\<in>set ys. f c) \<and> p' = last_char p ys \<and> g' = g)"
  (is "?L \<longleftrightarrow> ?R")
proof
  assume ?L
  then obtain p1 xs1 g1 where
    a: "(p1, xs1, g1) \<in> set (rx_match (Cls f) (p, xs, g))" and
    b: "(p', xs', g') \<in> set (rx_match (Star f) (p1, xs1, g1))"
    unfolding Plus_def by (rule seqE)
  from a [unfolded cls_iff] obtain x where x: "xs = x # xs1" "f x" "p1 = Some x" "g1 = g"
    by (elim exE conjE)
  from b [unfolded star_iff] obtain ys where ys: "xs1 = ys @ xs'" "\<forall>c\<in>set ys. f c"
    "p' = last_char p1 ys" "g' = g1"
    by (elim exE conjE)
  have "x # ys \<noteq> [] \<and> xs = (x # ys) @ xs' \<and> (\<forall>c\<in>set (x # ys). f c) \<and>
      p' = last_char p (x # ys) \<and> g' = g"
    using x ys by simp
  then show ?R by (rule exI)
next
  assume ?R
  then obtain ys where r: "ys \<noteq> []" "xs = ys @ xs'" "\<forall>c\<in>set ys. f c" "p' = last_char p ys"
    "g' = g"
    by (elim exE conjE)
  then obtain x t where ys: "ys = x # t" by (cases ys) auto
  have a: "(Some x, t @ xs', g) \<in> set (rx_match (Cls f) (p, xs, g))"
    using r ys by (simp only: cls_iff) simp
  have "t @ xs' = t @ xs' \<and> (\<forall>c\<in>set t. f c) \<and> p' = last_char (Some x) t \<and> g' = g"
    using r ys by simp
  then have "\<exists>zs. t @ xs' = zs @ xs' \<and> (\<forall>c\<in>set zs. f c) \<and> p' = last_char (Some x) zs \<and> g' = g"
    by (rule exI)
  then have b: "(p', xs', g') \<in> set (rx_match (Star f) (Some x, t @ xs', g))"
    by (simp only: star_iff)
  show ?L unfolding Plus_def using a b by (rule seqI)
qed

lemma ident_iff:
  "(p', xs', g') \<in> set (rx_match ident_rx (p, xs, g)) \<longleftrightarrow>
     (\<exists>x ys. xs = x # ys @ xs' \<and> is_ident_start x \<and> (\<forall>c\<in>set ys. is_ident_char c) \<and>
        g' = x # ys \<and> p' = last_char (Some x) ys)"
  (is "?L \<longleftrightarrow> ?R")
proof
  assume ?L
  from this [unfolded ident_rx_def group_iff] obtain g0 where
    g0: "(p', xs', g0) \<in> set (rx_match (Seq (Cls is_ident_start) (Star is_ident_char)) (p, xs, g))"
    and g': "g' = take (length xs - length xs') xs"
    by (elim exE conjE)
  from g0 obtain p1 xs1 g1 where
    a: "(p1, xs1, g1) \<in> set (rx_match (Cls is_ident_start) (p, xs, g))" and
    b: "(p', xs', g0) \<in> set (rx_match (Star is_ident_char) (p1, xs1, g1))"
    by (rule seqE)
  from a [unfolded cls_iff] obtain x where x: "xs = x # xs1" "is_ident_start x" "p1 = Some x"
    by (elim exE conjE)
  from b [unfolded star_iff] obtain ys where
    ys: "xs1 = ys @ xs'" "\<forall>c\<in>set ys. is_ident_char c" "p' = last_char p1 ys"
    by (elim exE conjE)
  have "g' = x # ys" using g' x ys by simp
  with x ys have "xs = x # ys @ xs' \<and> is_ident_start x \<and> (\<forall>c\<in>set ys. is_ident_char c) \<and>
        g' = x # ys \<and> p' = last_char (Some x) ys"
    by simp
  then show ?R by (intro exI)
next
  assume ?R
  then obtain x ys where r: "xs = x # ys @ xs'" "is_ident_start x" "\<forall>c\<in>set ys. is_ident_char c"
    "g' = x # ys" "p' = last_char (Some x) ys"
    by (elim exE conjE)
  have a: "(Some x, ys @ xs', g) \<in> set (rx_match (Cls is_ident_start) (p, xs, g))"
    using r by (simp only: cls_iff) simp
  have "ys @ xs' = ys @ xs' \<and> (\<forall>c\<in>set ys. is_ident_char c) \<and> p' = last_char (Some x) ys \<and> g = g"
    using r by simp
  then have "\<exists>zs. ys @ xs' = zs @ xs' \<and> (\<forall>c\<in>set zs. is_ident_char c) \<and>
      p' = last_char (Some x) zs \<and> g = g"
    by (rule exI)
  then have b: "(p', xs', g) \<in> set (rx_match (Star is_ident_char) (Some x, ys @ xs', g))"
    by (simp only: star_iff)
  have "(p', xs', g) \<in> set (rx_match (Seq (Cls is_ident_start) (Star is_ident_char)) (p, xs, g))"
    using a b by (rule seqI)
  moreover have "g' = take (length xs - length xs') xs" using r by simp
  ultimately have "\<exists>g0. (p', xs', g0) \<in>
      set (rx_match (Seq (Cls is_ident_start) (Star is_ident_char)) (p, xs, g)) \<and>
      g' = take (length xs - length xs') xs"
    by (intro exI conjI)
  then show ?L unfolding ident_rx_def by (simp only: group_iff)
qed

lemma callRegex_iff:
  "(p', xs', g') \<in> set (rx_match callRegex (p, xs, g)) \<longleftrightarrow>
     (\<not> is_word p \<and> (\<exists>x ys ws. xs = x # ys @ ws @ CHR ''('' # xs' \<and> is_ident_start x \<and>
        (\<forall>c\<in>set ys. is_ident_char c) \<and> (\<forall>c\<in>set ws. is_space c) \<and>
        g' = x # ys \<and> p' = Some (CHR ''('')))"
  (is "?L \<longleftrightarrow> ?R")
proof
  assume l: ?L
  show ?R using l unfolding callRegex_def
  proof (elim seqE)
    fix p1 xs1 g1 p2 xs2 g2 p3 xs3 g3
    assume
      a: "(p1, xs1, g1) \<in> set (rx_match WordB (p, xs, g))" and
      b: "(p2, xs2, g2) \<in> set (rx_match ident_rx (p1, xs1, g1))" and
      c: "(p3, xs3, g3) \<in> set (rx_match (Star is_space) (p2, xs2, g2))" and
      d: "(p', xs', g') \<in> set (rx_match (Lit ''('') (p3, xs3, g3))"
    from a [unfolded wordb_iff] have a': "p1 = p" "xs1 = xs" "is_word p \<noteq> is_word (next_char xs)"
      by simp_all
    from b [unfolded ident_iff] obtain x ys where
      b': "xs1 = x # ys @ xs2" "is_ident_start x" "\<forall>c\<in>set ys. is_ident_char c" "g2 = x # ys"
      by (elim exE conjE)
    from c [unfolded star_iff] obtain ws where
      c': "xs2 = ws @ xs3" "\<forall>c\<in>set ws. is_space c" "g3 = g2"
      by (elim exE conjE)
    from d [unfolded lit_iff] have d': "xs3 = ''('' @ xs'" "p' = last_char p3 ''(''" "g' = g3"
      by simp_all
    have "next_char xs = Some x" using a'(2) b'(1) by (cases xs) simp_all
    then have "is_word (next_char xs)" using b'(2) by (simp add: is_word_def ident_start_char)
    then have nw: "\<not> is_word p" using a' by simp
    have "xs = x # ys @ ws @ CHR ''('' # xs' \<and> is_ident_start x \<and>
        (\<forall>c\<in>set ys. is_ident_char c) \<and> (\<forall>c\<in>set ws. is_space c) \<and>
        g' = x # ys \<and> p' = Some (CHR ''('')"
      using a' b' c' d' by simp
    then have "\<exists>x ys ws. xs = x # ys @ ws @ CHR ''('' # xs' \<and> is_ident_start x \<and>
        (\<forall>c\<in>set ys. is_ident_char c) \<and> (\<forall>c\<in>set ws. is_space c) \<and>
        g' = x # ys \<and> p' = Some (CHR ''('')"
      by (intro exI)
    with nw show ?R by (rule conjI)
  qed
next
  assume ?R
  then obtain x ys ws where r: "\<not> is_word p" "xs = x # ys @ ws @ CHR ''('' # xs'"
    "is_ident_start x" "\<forall>c\<in>set ys. is_ident_char c" "\<forall>c\<in>set ws. is_space c" "g' = x # ys"
    "p' = Some (CHR ''('')"
    by (elim exE conjE)
  have a: "(p, xs, g) \<in> set (rx_match WordB (p, xs, g))"
    using r by (simp only: wordb_iff) (simp add: is_word_def ident_start_char)
  have "xs = x # ys @ (ws @ CHR ''('' # xs') \<and> is_ident_start x \<and>
      (\<forall>c\<in>set ys. is_ident_char c) \<and> g' = x # ys \<and>
      last_char (Some x) ys = last_char (Some x) ys"
    using r by simp
  then have "\<exists>x' ys'. xs = x' # ys' @ (ws @ CHR ''('' # xs') \<and> is_ident_start x' \<and>
      (\<forall>c\<in>set ys'. is_ident_char c) \<and> g' = x' # ys' \<and>
      last_char (Some x) ys = last_char (Some x') ys'"
    by (intro exI)
  then have b: "(last_char (Some x) ys, ws @ CHR ''('' # xs', g') \<in>
      set (rx_match ident_rx (p, xs, g))"
    by (simp only: ident_iff)
  have "ws @ CHR ''('' # xs' = ws @ CHR ''('' # xs' \<and> (\<forall>c\<in>set ws. is_space c) \<and>
      last_char (last_char (Some x) ys) ws = last_char (last_char (Some x) ys) ws \<and> g' = g'"
    using r by simp
  then have "\<exists>zs. ws @ CHR ''('' # xs' = zs @ CHR ''('' # xs' \<and> (\<forall>c\<in>set zs. is_space c) \<and>
      last_char (last_char (Some x) ys) ws = last_char (last_char (Some x) ys) zs \<and> g' = g'"
    by (rule exI)
  then have c: "(last_char (last_char (Some x) ys) ws, CHR ''('' # xs', g') \<in>
      set (rx_match (Star is_space) (last_char (Some x) ys, ws @ CHR ''('' # xs', g'))"
    by (simp only: star_iff)
  have d: "(p', xs', g') \<in>
      set (rx_match (Lit ''('') (last_char (last_char (Some x) ys) ws, CHR ''('' # xs', g'))"
    using r by (simp only: lit_iff) simp
  show ?L unfolding callRegex_def by (rule seqI [OF a seqI [OF b seqI [OF c d]]])
qed

lemma funcRegex_iff:
  "(\<exists>p'. (p', xs', g') \<in> set (rx_match funcRegex (p, xs, g))) \<longleftrightarrow> signature_shape xs g' xs'"
  (is "?L \<longleftrightarrow> ?R")
proof
  assume ?L
  then obtain p' where m: "(p', xs', g') \<in> set (rx_match funcRegex (p, xs, g))" by (elim exE)
  show ?R using m unfolding funcRegex_def
  proof (elim seqE)
    fix p1 xs1 g1 p2 xs2 g2 p3 xs3 g3 p4 xs4 g4 p5 xs5 g5 p6 xs6 g6 p7 xs7 g7 p8 xs8 g8
    assume
      a: "(p1, xs1, g1) \<in> set (rx_match keyword (p, xs, g))" and
      b: "(p2, xs2, g2) \<in> set (rx_match (Plus is_space) (p1, xs1, g1))" and
      c: "(p3, xs3, g3) \<in> set (rx_match ident_rx (p2, xs2, g2))" and
      d: "(p4, xs4, g4) \<in> set (rx_match (Star is_space) (p3, xs3, g3))" and
      e: "(p5, xs5, g5) \<in> set (rx_match (Lit ''('') (p4, xs4, g4))" and
      f: "(p6, xs6, g6) \<in> set (rx_match (Star not_rparen) (p5, xs5, g5))" and
      h: "(p7, xs7, g7) \<in> set (rx_match (Lit '')'') (p6, xs6, g6))" and
      i: "(p8, xs8, g8) \<in> set (rx_match (Star is_space) (p7, xs7, g7))" and
      j: "(p', xs', g') \<in> set (rx_match (Opt (Lit ''{'')) (p8, xs8, g8))"
    from a [unfolded keyword_iff] obtain kw where kw: "kw \<in> set type_keywords" "xs = kw @ xs1"
      by (elim bexE conjE)
    from b [unfolded plus_iff] obtain ws where
      ws: "ws \<noteq> []" "xs1 = ws @ xs2" "\<forall>c\<in>set ws. is_space c"
      by (elim exE conjE)
    from c [unfolded ident_iff] obtain x ys where id: "xs2 = x # ys @ xs3" "is_ident_start x"
      "\<forall>c\<in>set ys. is_ident_char c" "g3 = x # ys"
      by (elim exE conjE)
    from d [unfolded star_iff] obtain ws2 where
      ws2: "xs3 = ws2 @ xs4" "\<forall>c\<in>set ws2. is_space c" "g4 = g3"
      by (elim exE conjE)
    from e [unfolded lit_iff] have lp: "xs4 = ''('' @ xs5" "g5 = g4" by simp_all
    from f [unfolded star_iff] obtain ps where
      ps: "xs5 = ps @ xs6" "\<forall>c\<in>set ps. not_rparen c" "g6 = g5"
      by (elim exE conjE)
    from h [unfolded lit_iff] have rp: "xs6 = '')'' @ xs7" "g7 = g6" by simp_all
    from i [unfolded star_iff] obtain ws3 where
      ws3: "xs7 = ws3 @ xs8" "\<forall>c\<in>set ws3. is_space c" "g8 = g7"
      by (elim exE conjE)
    from j [unfolded opt_iff lit_iff]
    have "(xs8 = ''{'' @ xs' \<and> g' = g8) \<or> (xs' = xs8 \<and> g' = g8)"
      by auto
    then obtain br where br: "br = [] \<or> br = ''{''" "xs8 = br @ xs'" "g' = g8" by auto
    have g': "g' = x # ys" using br ws3 rp ps lp ws2 id by simp
    have "kw \<in> set type_keywords \<and> ws \<noteq> [] \<and> (\<forall>c\<in>set ws. is_space c) \<and>
        is_ident_start x \<and> (\<forall>c\<in>set ys. is_ident_char c) \<and> (\<forall>c\<in>set ws2. is_space c) \<and>
        (\<forall>c\<in>set ps. c \<noteq> CHR '')'') \<and> (\<forall>c\<in>set ws3. is_space c) \<and> (br = [] \<or> br = ''{'') \<and>
        g' = x # ys \<and>
        xs = kw @ ws @ g' @ ws2 @ ''('' @ ps @ '')'' @ ws3 @ br @ xs'"
      using kw ws id ws2 lp ps rp ws3 br g' by (simp add: not_rparen_iff)
    then show ?R unfolding signature_shape_def by (intro exI)
  qed
next
  assume ?R
  then obtain kw ws x ys ws2 ps ws3 br where r:
    "kw \<in> set type_keywords" "ws \<noteq> []" "\<forall>c\<in>set ws. is_space c" "is_ident_start x"
    "\<forall>c\<in>set ys. is_ident_char c" "\<forall>c\<in>set ws2. is_space c" "\<forall>c\<in>set ps. c \<noteq> CHR '')''"
    "\<forall>c\<in>set ws3. is_space c" "br = [] \<or> br = ''{''" "g' = x # ys"
    "xs = kw @ ws @ g' @ ws2 @ ''('' @ ps @ '')'' @ ws3 @ br @ xs'"
    unfolding signature_shape_def by (elim exE conjE)
  define xs1 where "xs1 = ws @ g' @ ws2 @ ''('' @ ps @ '')'' @ ws3 @ br @ xs'"
  define xs2 where "xs2 = g' @ ws2 @ ''('' @ ps @ '')'' @ ws3 @ br @ xs'"
  define xs3 where "xs3 = ws2 @ ''('' @ ps @ '')'' @ ws3 @ br @ xs'"
  define xs4 where "xs4 = ''('' @ ps @ '')'' @ ws3 @ br @ xs'"
  define xs5 where "xs5 = ps @ '')'' @ ws3 @ br @ xs'"
  define xs6 where "xs6 = '')'' @ ws3 @ br @ xs'"
  define xs7 where "xs7 = ws3 @ br @ xs'"
  define p1 where "p1 = last_char p kw"
  define p2 where "p2 = last_char p1 ws"
  define p3 where "p3 = last_char (Some x) ys"
  define p4 where "p4 = last_char p3 ws2"
  define p5 where "p5 = last_char p4 ''(''"
  define p6 where "p6 = last_char p5 ps"
  define p7 where "p7 = last_char p6 '')''"
  have a: "(p1, xs1, g) \<in> set (rx_match keyword (p, xs, g))"
    using r(1,11) by (simp only: keyword_iff xs1_def p1_def) (intro bexI [of _ kw] conjI refl)
  have "ws \<noteq> [] \<and> xs1 = ws @ xs2 \<and> (\<forall>c\<in>set ws. is_space c) \<and> p2 = last_char p1 ws \<and> g = g"
    using r by (simp add: xs1_def xs2_def p2_def)
  then have "\<exists>zs. zs \<noteq> [] \<and> xs1 = zs @ xs2 \<and> (\<forall>c\<in>set zs. is_space c) \<and>
      p2 = last_char p1 zs \<and> g = g"
    by (rule exI)
  then have b: "(p2, xs2, g) \<in> set (rx_match (Plus is_space) (p1, xs1, g))"
    by (simp only: plus_iff)
  have "xs2 = x # ys @ xs3 \<and> is_ident_start x \<and> (\<forall>c\<in>set ys. is_ident_char c) \<and>
      g' = x # ys \<and> p3 = last_char (Some x) ys"
    using r by (simp add: xs2_def xs3_def p3_def)
  then have "\<exists>x' ys'. xs2 = x' # ys' @ xs3 \<and> is_ident_start x' \<and>
      (\<forall>c\<in>set ys'. is_ident_char c) \<and> g' = x' # ys' \<and> p3 = last_char (Some x') ys'"
    by (intro exI)
  then have c: "(p3, xs3, g') \<in> set (rx_match ident_rx (p2, xs2, g))"
    by (simp only: ident_iff)
  have "xs3 = ws2 @ xs4 \<and> (\<forall>c\<in>set ws2. is_space c) \<and> p4 = last_char p3 ws2 \<and> g' = g'"
    using r by (simp add: xs3_def xs4_def p4_def)
  then have "\<exists>zs. xs3 = zs @ xs4 \<and> (\<forall>c\<in>set zs. is_space c) \<and> p4 = last_char p3 zs \<and> g' = g'"
    by (rule exI)
  then have d: "(p4, xs4, g') \<in> set (rx_match (Star is_space) (p3, xs3, g'))"
    by (simp only: star_iff)
  have e: "(p5, xs5, g') \<in> set (rx_match (Lit ''('') (p4, xs4, g'))"
    by (simp only: lit_iff xs4_def xs5_def p5_def)
  have "xs5 = ps @ xs6 \<and> (\<forall>c\<in>set ps. not_rparen c) \<and> p6 = last_char p5 ps \<and> g' = g'"
    using r by (simp add: xs5_def xs6_def p6_def not_rparen_iff)
  then have "\<exists>zs. xs5 = zs @ xs6 \<and> (\<forall>c\<in>set zs. not_rparen c) \<and> p6 = last_char p5 zs \<and> g' = g'"
    by (rule exI)
  then have f: "(p6, xs6, g') \<in> set (rx_match (Star not_rparen) (p5, xs5, g'))"
    by (simp only: star_iff)
  have h: "(p7, xs7, g') \<in> set (rx_match (Lit '')'') (p6, xs6, g'))"
    by (simp only: lit_iff xs6_def xs7_def p7_def)
  have "xs7 = ws3 @ br @ xs' \<and> (\<forall>c\<in>set ws3. is_space c) \<and>
      last_char p7 ws3 = last_char p7 ws3 \<and> g' = g'"
    using r by (simp add: xs7_def)
  then have "\<exists>zs. xs7 = zs @ br @ xs' \<and> (\<forall>c\<in>set zs. is_space c) \<and>
      last_char p7 ws3 = last_char p7 zs \<and> g' = g'"
    by (rule exI)
  then have i: "(last_char p7 ws3, br @ xs', g') \<in> set (rx_match (Star is_space) (p7, xs7, g'))"
    by (simp only: star_iff)
  have j: "(last_char (last_char p7 ws3) br, xs', g') \<in>
      set (rx_match (Opt (Lit ''{'')) (last_char p7 ws3, br @ xs', g'))"
    using r(9) by (simp only: opt_iff lit_iff) auto
  have "(last_char (last_char p7 ws3) br, xs', g') \<in> set (rx_match funcRegex (p, xs, g))"
    unfolding funcRegex_def
    by (rule seqI [OF a seqI [OF b seqI [OF c seqI [OF d seqI [OF e seqI [OF f
          seqI [OF h seqI [OF i j]]]]]]]])
  then show ?L by (rule exI)
qed

lemma type_keywords_nonempty: "kw \<in> set type_keywords \<Longrightarrow> kw \<noteq> []"
  by (auto simp: type_keywords_def)

lemma consuming_funcRegex: "consuming funcRegex"
  unfolding consuming_def
proof (intro allI impI)
  fix p xs g p' xs' g'
  assume "(p', xs', g') \<in> set (rx_match funcRegex (p, xs, g))"
  then have "\<exists>p'. (p', xs', g') \<in> set (rx_match funcRegex (p, xs, g))" by (rule exI)
  then have "signature_shape xs g' xs'" by (simp only: funcRegex_iff)
  then obtain kw rest where kw: "kw \<in> set type_keywords" and xs: "xs = kw @ rest @ xs'"
    unfolding signature_shape_def by (metis append.assoc)
  from kw have "kw \<noteq> []" by (rule type_keywords_nonempty)
  then show "length xs' < length xs" using xs by (cases kw) simp_all
qed

lemma consuming_callRegex: "consuming callRegex"
  unfolding consuming_def
proof (intro allI impI)
  fix p xs g p' xs' g'
  assume "(p', xs', g') \<in> set (rx_match callRegex (p, xs, g))"
  from this [unfolded callRegex_iff] obtain x ys ws where "xs = x # ys @ ws @ CHR ''('' # xs'"
    by (elim exE conjE)
  then show "length xs' < length xs" by simp
qed

section \<open>What the loops over the matches compute\<close>

lemma fails_before_Nil: "fails_before r p [] suf"
  by (simp add: fails_before_def)

lemma fails_before_Cons:
  assumes "rx_match r (p, x # pre @ suf, []) = []" and "fails_before r (Some x) pre suf"
  shows "fails_before r p (x # pre) suf"
  unfolding fails_before_def
proof (intro allI impI)
  fix a b assume ab: "x # pre = a @ b \<and> b \<noteq> []"
  show "rx_match r (last_char p a, b @ suf, []) = []"
  proof (cases a)
    case Nil
    with ab have "b = x # pre" by simp
    then show ?thesis using Nil assms(1) by simp
  next
    case (Cons y a')
    then have pb: "pre = a' @ b \<and> b \<noteq> []" and yx: "y = x" using ab by simp_all
    from assms(2) [unfolded fails_before_def, rule_format, OF pb]
    have "rx_match r (last_char (Some x) a', b @ suf, []) = []" .
    then show ?thesis using yx Cons by simp
  qed
qed

lemma rx_exec_Some:
  "rx_exec r p xs i = Some (j, st) \<Longrightarrow>
     \<exists>pre suf. xs = pre @ suf \<and> j = i + length pre \<and> found_at r p pre suf st"
proof (induction xs arbitrary: p i)
  case Nil
  then obtain rest where "rx_match r (p, [], []) = st # rest" "j = i"
    by (auto split: list.splits)
  then have "[] = [] @ [] \<and> j = i + length ([]::string) \<and> found_at r p [] [] st"
    by (simp add: found_at_def fails_before_Nil)
  then show ?case by (intro exI [of _ "[]"])
next
  case (Cons x xs)
  show ?case
  proof (cases "rx_match r (p, x # xs, [])")
    case Nil
    with Cons.prems have "rx_exec r (Some x) xs (Suc i) = Some (j, st)" by simp
    from Cons.IH [OF this] obtain pre suf where
      ih: "xs = pre @ suf" "j = Suc i + length pre" "found_at r (Some x) pre suf st"
      by (elim exE conjE)
    have "fails_before r p (x # pre) suf"
      using Nil ih(1,3) by (intro fails_before_Cons) (simp_all add: found_at_def)
    then have "found_at r p (x # pre) suf st"
      using ih(3) by (simp add: found_at_def)
    then have "x # xs = (x # pre) @ suf \<and> j = i + length (x # pre) \<and>
        found_at r p (x # pre) suf st"
      using ih(1,2) by simp
    then show ?thesis by (intro exI [of _ "x # pre"] exI [of _ suf])
  next
    case c: (Cons st' rest)
    with Cons.prems have "j = i" "st' = st" by simp_all
    then have "x # xs = [] @ (x # xs) \<and> j = i + length ([]::string) \<and>
        found_at r p [] (x # xs) st"
      using c by (simp add: found_at_def fails_before_Nil)
    then show ?thesis by (intro exI [of _ "[]"] exI [of _ "x # xs"])
  qed
qed

lemma rx_exec_None:
  "rx_exec r p xs i = None \<Longrightarrow> xs = pre @ suf \<Longrightarrow> rx_match r (last_char p pre, suf, []) = []"
proof (induction xs arbitrary: p i pre)
  case Nil
  then show ?case by (auto split: list.splits)
next
  case (Cons x xs)
  from Cons.prems(1) have here: "rx_match r (p, x # xs, []) = []"
    and later: "rx_exec r (Some x) xs (Suc i) = None"
    by (auto split: list.splits)
  show ?case
  proof (cases pre)
    case Nil
    then show ?thesis using here Cons.prems(2) by simp
  next
    case c: (Cons y pre')
    then have "xs = pre' @ suf" "y = x" using Cons.prems(2) by simp_all
    from Cons.IH [OF later this(1)] show ?thesis using c \<open>y = x\<close> by simp
  qed
qed

lemma found_at_member:
  "found_at r p pre suf st \<Longrightarrow> st \<in> set (rx_match r (last_char p pre, suf, []))"
  by (auto simp: found_at_def)

lemma rx_exec_consumes:
  assumes "consuming r" and "rx_exec r p xs i = Some (j, (p', xs', g))"
  shows "length xs' < length xs" and "i \<le> j" and "j < i + (length xs - length xs')"
proof -
  from rx_exec_Some [OF assms(2)] obtain pre suf where
    e: "xs = pre @ suf" "j = i + length pre" "found_at r p pre suf (p', xs', g)"
    by (elim exE conjE)
  then have "(p', xs', g) \<in> set (rx_match r (last_char p pre, suf, []))"
    by (simp add: found_at_member)
  from assms(1) [unfolded consuming_def, rule_format, OF this]
  have "length xs' < length suf" .
  with e show "length xs' < length xs" "i \<le> j" "j < i + (length xs - length xs')" by simp_all
qed

lemma exec_loop_total:
  assumes "consuming r"
  shows "\<exists>ms. exec_loop r p xs i = Some ms"
proof (induction xs arbitrary: p i rule: length_induct)
  case (1 xs)
  show ?case
  proof (cases "rx_exec r p xs i")
    case None
    then show ?thesis by (subst exec_loop.simps) simp
  next
    case (Some a)
    then obtain j p' xs' g where a: "rx_exec r p xs i = Some (j, (p', xs', g))"
      by (cases a) auto
    from rx_exec_consumes(1) [OF assms a] have less: "length xs' < length xs" .
    from 1 [rule_format, OF less, of p' "i + (length xs - length xs')"] obtain ms where
      "exec_loop r p' xs' (i + (length xs - length xs')) = Some ms"
      by (elim exE)
    then show ?thesis using a less by (subst exec_loop.simps) simp
  qed
qed

lemma exec_loop_sorted:
  assumes "consuming r"
  shows "exec_loop r p xs i = Some ms \<Longrightarrow>
    sorted_wrt (<) (map fst ms) \<and> (\<forall>m\<in>set ms. i \<le> fst m)"
proof (induction xs arbitrary: p i ms rule: length_induct)
  case (1 xs)
  show ?case
  proof (cases "rx_exec r p xs i")
    case None
    with 1(2) have "ms = []" by (subst (asm) exec_loop.simps) simp
    then show ?thesis by simp
  next
    case (Some a)
    then obtain j p' xs' g where a: "rx_exec r p xs i = Some (j, (p', xs', g))"
      by (cases a) auto
    note c = rx_exec_consumes [OF assms a]
    from 1(2) a c(1) obtain ms' where
      ms': "exec_loop r p' xs' (i + (length xs - length xs')) = Some ms'" and
      ms: "ms = (j, g) # ms'"
      by (subst (asm) exec_loop.simps) auto
    from 1(1) [rule_format, OF c(1) ms'] have ih: "sorted_wrt (<) (map fst ms') \<and>
        (\<forall>m\<in>set ms'. i + (length xs - length xs') \<le> fst m)" .
    then have "\<forall>m\<in>set ms'. j < fst m" using c(3) by fastforce
    moreover have "\<forall>m\<in>set ms'. i \<le> fst m" using ih by fastforce
    ultimately show ?thesis using ih ms c(2) by simp
  qed
qed

lemma exec_loop_member:
  "exec_loop r p xs i = Some ms \<Longrightarrow> (j, g) \<in> set ms \<Longrightarrow>
     \<exists>pre suf p' xs'. xs = pre @ suf \<and> j = i + length pre \<and>
       (p', xs', g) \<in> set (rx_match r (last_char p pre, suf, []))"
proof (induction xs arbitrary: p i ms rule: length_induct)
  case (1 xs)
  show ?case
  proof (cases "rx_exec r p xs i")
    case None
    with 1(2) have "ms = []" by (subst (asm) exec_loop.simps) simp
    with 1(3) show ?thesis by simp
  next
    case (Some a)
    then obtain j0 p0 xs0 g0 where a: "rx_exec r p xs i = Some (j0, (p0, xs0, g0))"
      by (cases a) auto
    from 1(2) a have less: "length xs0 < length xs"
      by (subst (asm) exec_loop.simps) (auto split: if_splits)
    from 1(2) a less obtain ms' where
      ms': "exec_loop r p0 xs0 (i + (length xs - length xs0)) = Some ms'" and
      ms: "ms = (j0, g0) # ms'"
      by (subst (asm) exec_loop.simps) auto
    from rx_exec_Some [OF a] obtain pre0 suf0 where
      e: "xs = pre0 @ suf0" "j0 = i + length pre0" "found_at r p pre0 suf0 (p0, xs0, g0)"
      by (elim exE conjE)
    have m0: "(p0, xs0, g0) \<in> set (rx_match r (last_char p pre0, suf0, []))"
      using e(3) by (rule found_at_member)
    show ?thesis
    proof (cases "(j, g) = (j0, g0)")
      case True
      then have "xs = pre0 @ suf0 \<and> j = i + length pre0 \<and>
          (p0, xs0, g) \<in> set (rx_match r (last_char p pre0, suf0, []))"
        using e m0 by simp
      then show ?thesis by (intro exI [of _ pre0] exI [of _ suf0] exI [of _ p0] exI [of _ xs0])
    next
      case False
      with 1(3) ms have mem: "(j, g) \<in> set ms'" by auto
      from 1(1) [rule_format, OF less ms' mem] obtain pre1 suf1 p1 xs1 where
        ih: "xs0 = pre1 @ suf1" "j = i + (length xs - length xs0) + length pre1"
          "(p1, xs1, g) \<in> set (rx_match r (last_char p0 pre1, suf1, []))"
        by (elim exE conjE)
      from rx_match_suffix [OF m0] obtain ys where
        ys: "suf0 = ys @ xs0" "p0 = last_char (last_char p pre0) ys"
        by (elim exE conjE)
      have "xs = (pre0 @ ys @ pre1) @ suf1 \<and> j = i + length (pre0 @ ys @ pre1) \<and>
          (p1, xs1, g) \<in> set (rx_match r (last_char p (pre0 @ ys @ pre1), suf1, []))"
        using e(1) ys ih by (simp add: last_char_append)
      then show ?thesis
        by (intro exI [of _ "pre0 @ ys @ pre1"] exI [of _ suf1] exI [of _ p1] exI [of _ xs1])
    qed
  qed
qed

text \<open>A match at a position is found by the loop when no earlier match runs over it.\<close>

lemma ends_before_suffix:
  "ends_before r p (a @ b) suf \<Longrightarrow> ends_before r (last_char p a) b suf"
  unfolding ends_before_def
proof (intro allI impI)
  fix c d p' xs' g'
  assume h: "\<forall>a' b' p' xs' g'. a @ b = a' @ b' \<and> b' \<noteq> [] \<and>
        (p', xs', g') \<in> set (rx_match r (last_char p a', b' @ suf, [])) \<longrightarrow>
        length suf \<le> length xs'"
    and c: "b = c @ d \<and> d \<noteq> [] \<and>
        (p', xs', g') \<in> set (rx_match r (last_char (last_char p a) c, d @ suf, []))"
  from c have "a @ b = (a @ c) @ d \<and> d \<noteq> [] \<and>
      (p', xs', g') \<in> set (rx_match r (last_char p (a @ c), d @ suf, []))"
    by (simp add: last_char_append)
  from h [rule_format, OF this] show "length suf \<le> length xs'" .
qed

lemma exec_loop_finds:
  assumes "consuming r"
  shows "xs = pre @ suf \<Longrightarrow> rx_match r (last_char p pre, suf, []) = (p1, xs1, g1) # rest \<Longrightarrow>
     ends_before r p pre suf \<Longrightarrow>
     \<exists>ms. exec_loop r p xs i = Some ms \<and> (i + length pre, g1) \<in> set ms"
proof (induction pre arbitrary: xs p i rule: length_induct)
  case (1 pre)
  show ?case
  proof (cases "rx_exec r p xs i")
    case None
    from rx_exec_None [OF None 1(2)] 1(3) show ?thesis by simp
  next
    case (Some a)
    then obtain j0 p0 xs0 g0 where a: "rx_exec r p xs i = Some (j0, (p0, xs0, g0))"
      by (cases a) auto
    note c = rx_exec_consumes [OF assms a]
    from exec_loop_total [OF assms, of p0 xs0 "i + (length xs - length xs0)"] obtain ms' where
      ms': "exec_loop r p0 xs0 (i + (length xs - length xs0)) = Some ms'"
      by (elim exE)
    have ms: "exec_loop r p xs i = Some ((j0, g0) # ms')"
      using a c(1) ms' by (subst exec_loop.simps) simp
    from rx_exec_Some [OF a] obtain pre0 suf0 where
      e: "xs = pre0 @ suf0" "j0 = i + length pre0" "found_at r p pre0 suf0 (p0, xs0, g0)"
      by (elim exE conjE)
    have m0: "(p0, xs0, g0) \<in> set (rx_match r (last_char p pre0, suf0, []))"
      using e(3) by (rule found_at_member)
    from rx_match_suffix [OF m0] obtain ys where
      ys: "suf0 = ys @ xs0" "p0 = last_char (last_char p pre0) ys"
      by (elim exE conjE)
    from e(1) 1(2) have "pre0 @ suf0 = pre @ suf" by simp
    from append_eq_append_conv2 [THEN iffD1, OF this] obtain u where
      u: "(pre0 = pre @ u \<and> u @ suf0 = suf) \<or> (pre0 @ u = pre \<and> suf0 = u @ suf)"
      by (elim exE)
    show ?thesis
    proof (cases "u = []")
      case True
      with u have "pre0 = pre" "suf0 = suf" by auto
      with e(3) 1(3) have "(p0, xs0, g0) = (p1, xs1, g1)" by (auto simp: found_at_def)
      with ms e(2) \<open>pre0 = pre\<close> show ?thesis by simp
    next
      case False
      from u show ?thesis
      proof
        assume l: "pre0 = pre @ u \<and> u @ suf0 = suf"
        from e(3) have fb: "fails_before r p pre0 suf0" by (simp add: found_at_def)
        from l False have "pre0 = pre @ u \<and> u \<noteq> []" by simp
        from fb [unfolded fails_before_def, rule_format, OF this]
        have "rx_match r (last_char p pre, u @ suf0, []) = []" .
        with l 1(3) show ?thesis by simp
      next
        assume l: "pre0 @ u = pre \<and> suf0 = u @ suf"
        with False m0 have "pre = pre0 @ u \<and> u \<noteq> [] \<and>
            (p0, xs0, g0) \<in> set (rx_match r (last_char p pre0, u @ suf, []))"
          by auto
        from 1(4) [unfolded ends_before_def, rule_format, OF this]
        have le: "length suf \<le> length xs0" .
        from l ys(1) have "ys @ xs0 = u @ suf" by simp
        from append_eq_append_conv2 [THEN iffD1, OF this] obtain v where
          v: "(ys = u @ v \<and> v @ xs0 = suf) \<or> (ys @ v = u \<and> xs0 = v @ suf)"
          by (elim exE)
        have "\<exists>v. ys @ v = u \<and> xs0 = v @ suf"
        proof -
          from v show ?thesis
          proof
            assume h: "ys = u @ v \<and> v @ xs0 = suf"
            with le have "v = []" by auto
            with h have "ys @ [] = u \<and> xs0 = [] @ suf" by simp
            then show ?thesis by (rule exI)
          next
            assume "ys @ v = u \<and> xs0 = v @ suf"
            then show ?thesis by (rule exI)
          qed
        qed
        then obtain w where w: "ys @ w = u" "xs0 = w @ suf" by (elim exE conjE)
        have pre: "pre = pre0 @ ys @ w" using l w by simp
        have shorter: "length w < length pre"
          using pre c(1) e(1) ys(1) by (cases pre0; cases ys) auto
        have lc: "last_char p0 w = last_char p pre"
          using pre ys(2) by (simp add: last_char_append)
        have eb: "ends_before r p0 w suf"
          using ends_before_suffix [of r p "pre0 @ ys" w suf] 1(4) pre ys(2)
          by (simp add: last_char_append)
        have m1: "rx_match r (last_char p0 w, suf, []) = (p1, xs1, g1) # rest"
          using 1(3) lc by simp
        from 1(1) [rule_format, OF shorter w(2) m1 eb, of "i + (length xs - length xs0)"]
        obtain msr where
          "exec_loop r p0 xs0 (i + (length xs - length xs0)) = Some msr"
          "(i + (length xs - length xs0) + length w, g1) \<in> set msr"
          by (elim exE conjE)
        moreover have "i + (length xs - length xs0) + length w = i + length pre"
          using pre e(1) ys(1) w(2) by simp
        ultimately show ?thesis using ms ms' by simp
      qed
    qed
  qed
qed

section \<open>The scanners\<close>

lemma exec_all_funcRegex: "exec_all funcRegex text = Some (all_matches funcRegex text)"
proof -
  from exec_loop_total [OF consuming_funcRegex, of None "text" 0] obtain ms where
    "exec_loop funcRegex None text 0 = Some ms"
    by (elim exE)
  then show ?thesis by (simp add: all_matches_def exec_all_def)
qed

lemma exec_all_callRegex: "exec_all callRegex text = Some (all_matches callRegex text)"
proof -
  from exec_loop_total [OF consuming_callRegex, of None "text" 0] obtain ms where
    "exec_loop callRegex None text 0 = Some ms"
    by (elim exE)
  then show ?thesis by (simp add: all_matches_def exec_all_def)
qed

lemma name_mkDef: "name (mkDef m (i, g)) = g"
  by (simp add: mkDef_def)

lemma module_mkDef: "module (mkDef m (i, g)) = m"
  by (simp add: mkDef_def)

lemma start_mkDef: "start (mkDef m (i, g)) = i"
  by (simp add: mkDef_def)

lemma start_mkDef_comp: "map start (map (mkDef m) ms) = map fst ms"
  by (induction ms) (auto simp: mkDef_def)

lemma scanDefs_sorted: "sorted_wrt (<) (map start (scanDefs file text))"
proof -
  have "exec_loop funcRegex None text 0 = Some (all_matches funcRegex text)"
    using exec_all_funcRegex [of "text"] by (simp add: exec_all_def)
  from exec_loop_sorted [OF consuming_funcRegex this]
  have "sorted_wrt (<) (map fst (all_matches funcRegex text))" by simp
  then show ?thesis unfolding scanDefs_def by (simp only: start_mkDef_comp)
qed

lemma scanDefs_module: "d \<in> set (scanDefs file text) \<Longrightarrow> module d = moduleName_of file"
  by (auto simp: scanDefs_def module_mkDef)

lemma all_matches_member:
  assumes "consuming r" and "(j, g) \<in> set (all_matches r text)"
  shows "\<exists>pre suf p' xs'. text = pre @ suf \<and> j = length pre \<and>
       (p', xs', g) \<in> set (rx_match r (last_char None pre, suf, []))"
proof -
  from exec_loop_total [OF assms(1), of None "text" 0] obtain ms where
    ms: "exec_loop r None text 0 = Some ms"
    by (elim exE)
  then have "all_matches r text = ms" by (simp add: all_matches_def exec_all_def)
  with assms(2) have "(j, g) \<in> set ms" by simp
  from exec_loop_member [OF ms this] show ?thesis by simp
qed

lemma scanDefs_shape:
  assumes "d \<in> set (scanDefs file text)"
  shows "\<exists>pre suf xs'. text = pre @ suf \<and> start d = length pre \<and>
           signature_shape suf (name d) xs'"
proof -
  from assms obtain j g where m: "(j, g) \<in> set (all_matches funcRegex text)"
    and d: "d = mkDef (moduleName_of file) (j, g)"
    by (auto simp: scanDefs_def)
  from all_matches_member [OF consuming_funcRegex m] obtain pre suf p' xs' where
    e: "text = pre @ suf" "j = length pre"
      "(p', xs', g) \<in> set (rx_match funcRegex (last_char None pre, suf, []))"
    by (elim exE conjE)
  from e(3) have "\<exists>p'. (p', xs', g) \<in> set (rx_match funcRegex (last_char None pre, suf, []))"
    by (rule exI)
  then have "signature_shape suf g xs'" by (simp only: funcRegex_iff)
  with e d have "text = pre @ suf \<and> start d = length pre \<and> signature_shape suf (name d) xs'"
    by (simp add: name_mkDef start_mkDef)
  then show ?thesis by (intro exI)
qed

text \<open>
  In a text, the name of a definition is also a match of \<open>callRegex\<close>: the name follows
  white space and is followed by white space and an opening parenthesis.
\<close>

lemma takeWhile_prefix:
  "(\<forall>c\<in>set a. P c) \<Longrightarrow> b = [] \<or> \<not> P (hd b) \<Longrightarrow> takeWhile P (a @ b) = a"
  by (induction a) (auto simp: takeWhile_eq_Nil_iff)

lemma callRegex_capture:
  assumes "(p', xs', g') \<in> set (rx_match callRegex (p, xs, g))"
  shows "g' = takeWhile is_ident_char xs"
proof -
  from assms [unfolded callRegex_iff] obtain x ys ws where
    r: "xs = x # ys @ ws @ CHR ''('' # xs'" "is_ident_start x" "\<forall>c\<in>set ys. is_ident_char c"
      "\<forall>c\<in>set ws. is_space c" "g' = x # ys"
    by (elim exE conjE)
  have a: "\<forall>c\<in>set (x # ys). is_ident_char c" using r by (simp add: ident_start_char)
  have "\<not> is_ident_char (hd (ws @ CHR ''('' # xs'))"
    using r(4) space_not_ident ident_not_lparen by (cases ws) auto
  then have "takeWhile is_ident_char ((x # ys) @ (ws @ CHR ''('' # xs')) = x # ys"
    using a by (intro takeWhile_prefix) simp_all
  with r show ?thesis by simp
qed

lemma call_not_across:
  assumes m: "(p', xs', g') \<in> set (rx_match callRegex (p, b @ suf, g))"
    and b: "b \<noteq> []" "is_space (last b)"
    and suf: "suf \<noteq> []" "is_ident_start (hd suf)"
  shows "length suf \<le> length xs'"
proof (rule ccontr)
  assume "\<not> length suf \<le> length xs'"
  then have less: "length xs' < length suf" by simp
  from m [unfolded callRegex_iff] obtain x ys ws where
    r: "b @ suf = x # ys @ ws @ CHR ''('' # xs'" "is_ident_start x"
      "\<forall>c\<in>set ys. is_ident_char c" "\<forall>c\<in>set ws. is_space c"
    by (elim exE conjE)
  define I where "I = x # ys"
  define W where "W = ws @ ''(''"
  have I: "\<forall>c\<in>set I. is_ident_char c" using r by (simp add: I_def ident_start_char)
  have W: "\<forall>c\<in>set W. \<not> is_ident_start c"
    using r(4) space_not_ident ident_start_char ident_not_lparen by (auto simp: W_def)
  from r(1) have "b @ suf = (I @ W) @ xs'" by (simp add: I_def W_def)
  from append_eq_append_conv2 [THEN iffD1, OF this] obtain u where
    u: "(b = (I @ W) @ u \<and> u @ suf = xs') \<or> (b @ u = I @ W \<and> suf = u @ xs')"
    by (elim exE)
  with less have bu: "b @ u = I @ W" and su: "suf = u @ xs'" by auto
  from su less have "u \<noteq> []" by auto
  with su have hd: "hd u = hd suf" by (cases u) auto
  from append_eq_append_conv2 [THEN iffD1, OF bu] obtain v where
    v: "(b = I @ v \<and> v @ u = W) \<or> (b @ v = I \<and> u = v @ W)"
    by (elim exE)
  then show False
  proof
    assume "b = I @ v \<and> v @ u = W"
    then have "hd u \<in> set W" using \<open>u \<noteq> []\<close> by (cases u) auto
    with W hd suf(2) show False by auto
  next
    assume "b @ v = I \<and> u = v @ W"
    then have "last b \<in> set I" using b(1) by (metis last_in_set Un_iff set_append)
    with I b(2) space_not_ident show False by auto
  qed
qed

lemma last_char_last: "xs \<noteq> [] \<Longrightarrow> last_char p xs = Some (last xs)"
  by (induction xs arbitrary: p) auto

lemma def_is_call:
  assumes "d \<in> set (scanDefs file text)"
  shows "\<exists>q. (q, name d) \<in> set (all_matches callRegex text)"
proof -
  from scanDefs_shape [OF assms] obtain pre suf xs' where
    e: "text = pre @ suf" "signature_shape suf (name d) xs'"
    by (elim exE conjE)
  from e(2) obtain kw ws x ys ws2 rest where
    s: "ws \<noteq> []" "\<forall>c\<in>set ws. is_space c" "is_ident_start x" "\<forall>c\<in>set ys. is_ident_char c"
      "\<forall>c\<in>set ws2. is_space c" "name d = x # ys"
      "suf = kw @ ws @ (x # ys) @ ws2 @ CHR ''('' # rest"
    unfolding signature_shape_def by (elim exE conjE) simp
  define pre' where "pre' = pre @ kw @ ws"
  define suf' where "suf' = x # ys @ ws2 @ CHR ''('' # rest"
  have tx: "text = pre' @ suf'" using e(1) s(7) by (simp add: pre'_def suf'_def)
  have lastp: "last pre' = last ws" "pre' \<noteq> []" using s(1) by (simp_all add: pre'_def)
  have sp: "is_space (last ws)" using s(1,2) by simp
  have lc: "last_char None pre' = Some (last ws)"
    using lastp by (simp add: last_char_last)
  have nw: "\<not> is_word (last_char None pre')"
    using sp space_not_ident by (simp add: lc is_word_def)
  have "suf' = x # ys @ ws2 @ CHR ''('' # rest \<and> is_ident_start x \<and>
      (\<forall>c\<in>set ys. is_ident_char c) \<and> (\<forall>c\<in>set ws2. is_space c) \<and>
      x # ys = x # ys \<and> Some (CHR ''('') = Some (CHR ''('')"
    using s by (simp add: suf'_def)
  then have "\<exists>x' ys' ws'. suf' = x' # ys' @ ws' @ CHR ''('' # rest \<and> is_ident_start x' \<and>
      (\<forall>c\<in>set ys'. is_ident_char c) \<and> (\<forall>c\<in>set ws'. is_space c) \<and>
      x # ys = x' # ys' \<and> Some (CHR ''('') = Some (CHR ''('')"
    by (intro exI)
  with nw have mem: "(Some (CHR ''(''), rest, x # ys) \<in>
      set (rx_match callRegex (last_char None pre', suf', []))"
    by (simp only: callRegex_iff) simp
  then obtain st sts where hd: "rx_match callRegex (last_char None pre', suf', []) = st # sts"
    by (cases "rx_match callRegex (last_char None pre', suf', [])") auto
  obtain p1 xs1 g1 where st: "st = (p1, xs1, g1)" by (cases st) auto
  have "(p1, xs1, g1) \<in> set (rx_match callRegex (last_char None pre', suf', []))"
    using hd st by simp
  then have "g1 = takeWhile is_ident_char suf'" by (rule callRegex_capture)
  moreover have "x # ys = takeWhile is_ident_char suf'" using mem by (rule callRegex_capture)
  ultimately have g1: "g1 = name d" using s(6) by simp
  have eb: "ends_before callRegex None pre' suf'"
    unfolding ends_before_def
  proof (intro allI impI)
    fix a b p' xs'' g'
    assume h: "pre' = a @ b \<and> b \<noteq> [] \<and>
        (p', xs'', g') \<in> set (rx_match callRegex (last_char None a, b @ suf', []))"
    then have "last b = last ws" using lastp(1) by simp
    with sp have "is_space (last b)" by simp
    moreover have "suf' \<noteq> []" "is_ident_start (hd suf')" using s(3) by (simp_all add: suf'_def)
    ultimately show "length suf' \<le> length xs''"
      using h call_not_across [of p' xs'' g' "last_char None a" b suf' "[]"] by simp
  qed
  from exec_loop_finds [OF consuming_callRegex tx hd [unfolded st] eb, of 0]
  obtain ms where ms: "exec_loop callRegex None text 0 = Some ms"
    "(0 + length pre', g1) \<in> set ms"
    by (elim exE conjE)
  then have "(length pre', name d) \<in> set (all_matches callRegex text)"
    using g1 by (simp add: all_matches_def exec_all_def)
  then show ?thesis by (rule exI)
qed

section \<open>The two phases\<close>

subsection \<open>Phase 1\<close>

lemma foldl_def_step:
  "foldl (def_step m) (funcs, defs) ms =
     (funcs @ map (mkDef m) ms, addDefs defs (map (mkDef m) ms))"
proof (induction ms arbitrary: funcs defs)
  case Nil
  show ?case by (simp add: addDefs_def)
next
  case (Cons a ms)
  obtain i g where a: "a = (i, g)" by (cases a)
  have "def_step m (funcs, defs) (i, g) =
      (funcs @ [mkDef m (i, g)], AList.update (name (mkDef m (i, g))) (mkDef m (i, g)) defs)"
    by (simp add: def_step_def mkDef_def Let_def)
  then show ?case using Cons.IH by (simp add: a addDefs_def)
qed

lemma collectDefs_step:
  "readFile file = Some t \<Longrightarrow>
   collectDefs readFile (file # files) (defs, fileFuncMap) =
     collectDefs readFile files
       (addDefs defs (scanDefs file t), AList.update file (scanDefs file t) fileFuncMap)"
  by (simp add: exec_all_funcRegex foldl_def_step scanDefs_def)

lemma collectDefs_readable:
  "\<forall>f\<in>set files. readFile f \<noteq> None \<Longrightarrow>
   collectDefs readFile files st = Inr (defsPhase readFile files st)"
proof (induction files arbitrary: st)
  case Nil
  show ?case by simp
next
  case (Cons fl fls)
  obtain defs ffm where st: "st = (defs, ffm)" by (cases st)
  from Cons.prems obtain t where t: "readFile fl = Some t" by auto
  from Cons.prems have rest: "\<forall>f\<in>set fls. readFile f \<noteq> None" by simp
  show ?case
    unfolding st using Cons.IH [OF rest] t
    by (simp only: collectDefs_step [of readFile fl t, OF t] defsPhase.simps textOf_def option.case)
qed

lemma collectDefs_Inr:
  "collectDefs readFile files st = Inr r \<Longrightarrow>
   (\<forall>f\<in>set files. readFile f \<noteq> None) \<and> r = defsPhase readFile files st"
proof (induction files arbitrary: st)
  case Nil
  then show ?case by simp
next
  case (Cons fl fls)
  obtain defs ffm where st: "st = (defs, ffm)" by (cases st)
  from Cons.prems obtain t where t: "readFile fl = Some t"
    unfolding st by (cases "readFile fl") simp_all
  from Cons.prems have
    "collectDefs readFile fls
       (addDefs defs (scanDefs fl t), AList.update fl (scanDefs fl t) ffm) = Inr r"
    unfolding st by (simp only: collectDefs_step [of readFile fl t, OF t])
  from Cons.IH [OF this] show ?case
    unfolding st using t by (simp add: textOf_def)
qed

lemma addDefs_append: "addDefs defs (xs @ ys) = addDefs (addDefs defs xs) ys"
  by (simp add: addDefs_def)

lemma addDefs_snoc: "addDefs defs (xs @ [d]) = AList.update (name d) d (addDefs defs xs)"
  by (simp add: addDefs_def)

lemma fst_defsPhase:
  "fst (defsPhase readFile files (defs, ffm)) = addDefs defs (allDefs readFile files)"
proof (induction files arbitrary: defs ffm)
  case Nil
  show ?case by (simp add: allDefs_def addDefs_def)
next
  case (Cons fl fls)
  show ?case by (simp add: Cons.IH allDefs_def addDefs_append)
qed

lemma map_of_snd_defsPhase:
  "map_of (snd (defsPhase readFile files (defs, ffm))) f =
     (if f \<in> set files then Some (scanDefs f (textOf readFile f)) else map_of ffm f)"
proof (induction files arbitrary: defs ffm)
  case Nil
  show ?case by simp
next
  case (Cons fl fls)
  show ?case by (simp add: Cons.IH update_conv')
qed

lemma distinct_addDefs: "distinct (map fst defs) \<Longrightarrow> distinct (map fst (addDefs defs ds))"
  by (induction ds rule: rev_induct) (simp_all add: addDefs_snoc distinct_update, simp add: addDefs_def)

text \<open>The last definition of a name is the one the table holds.\<close>

lemma map_of_addDefs:
  "map_of (addDefs defs ds) n =
     (if filter (\<lambda>d. name d = n) ds = [] then map_of defs n
      else Some (last (filter (\<lambda>d. name d = n) ds)))"
proof (induction ds rule: rev_induct)
  case Nil
  show ?case by (simp add: addDefs_def)
next
  case (snoc d ds)
  show ?case by (simp add: addDefs_snoc update_conv' snoc.IH)
qed

lemma map_of_addDefs_Some:
  assumes "map_of (addDefs [] ds) n = Some d"
  shows "d \<in> set ds \<and> name d = n"
proof -
  from assms have ne: "filter (\<lambda>d. name d = n) ds \<noteq> []"
    and d: "d = last (filter (\<lambda>d. name d = n) ds)"
    by (auto simp: map_of_addDefs split: if_splits)
  from ne have "last (filter (\<lambda>d. name d = n) ds) \<in> set (filter (\<lambda>d. name d = n) ds)"
    by (rule last_in_set)
  with d show ?thesis by simp
qed

lemma map_of_addDefs_defined:
  assumes "d \<in> set ds"
  shows "\<exists>d'. map_of (addDefs defs ds) (name d) = Some d'"
proof -
  from assms have "d \<in> set (filter (\<lambda>x. name x = name d) ds)" by simp
  then have "filter (\<lambda>x. name x = name d) ds \<noteq> []" by (auto simp: filter_empty_conv)
  then show ?thesis by (simp add: map_of_addDefs)
qed

subsection \<open>Phase 2\<close>

lemma callerFunc_cases:
  "callerFunc funcs m i = \<lparr>name = ''<module>'', module = m, start = 0\<rparr> \<and>
     filter (\<lambda>f. start f \<le> i) funcs = []
   \<or> callerFunc funcs m i = last (filter (\<lambda>f. start f \<le> i) funcs) \<and>
     filter (\<lambda>f. start f \<le> i) funcs \<noteq> []"
  by (cases "filter (\<lambda>f. start f \<le> i) funcs") (simp_all add: callerFunc_def)

lemma callerFunc_module:
  assumes "\<forall>f\<in>set funcs. module f = m"
  shows "module (callerFunc funcs m i) = m"
proof -
  from callerFunc_cases [of funcs m i] show ?thesis
  proof
    assume "callerFunc funcs m i = \<lparr>name = ''<module>'', module = m, start = 0\<rparr> \<and>
      filter (\<lambda>f. start f \<le> i) funcs = []"
    then show ?thesis by simp
  next
    assume h: "callerFunc funcs m i = last (filter (\<lambda>f. start f \<le> i) funcs) \<and>
      filter (\<lambda>f. start f \<le> i) funcs \<noteq> []"
    then have "last (filter (\<lambda>f. start f \<le> i) funcs) \<in> set (filter (\<lambda>f. start f \<le> i) funcs)"
      by (intro last_in_set) simp
    then have "callerFunc funcs m i \<in> set funcs" using h by simp
    with assms show ?thesis by simp
  qed
qed

lemma call_step_eq:
  "call_step defs funcs m em c =
     (case call_triple defs funcs m c of None \<Rightarrow> em | Some t \<Rightarrow> add_edge em t)"
proof -
  obtain i n where c: "c = (i, n)" by (cases c)
  show ?thesis
  proof (cases "map_of defs n")
    case None
    then show ?thesis by (simp add: c call_step_def call_triple_def)
  next
    case (Some d)
    show ?thesis
    proof (cases "module (callerFunc funcs m i) = module d")
      case True
      with Some show ?thesis by (simp add: c call_step_def call_triple_def)
    next
      case False
      with Some show ?thesis
        by (simp add: c call_step_def call_triple_def add_edge_def Let_def)
    qed
  qed
qed

lemma foldl_call_step:
  "foldl (call_step defs funcs m) em cs =
     foldl add_edge em (List.map_filter (call_triple defs funcs m) cs)"
proof (induction cs arbitrary: em)
  case Nil
  show ?case by (simp add: map_filter_simps)
next
  case (Cons c cs)
  have "foldl (call_step defs funcs m) em (c # cs) =
      foldl (call_step defs funcs m) (call_step defs funcs m em c) cs"
    by simp
  also have "\<dots> = foldl add_edge (call_step defs funcs m em c)
      (List.map_filter (call_triple defs funcs m) cs)"
    by (rule Cons.IH)
  also have "\<dots> = foldl add_edge em (List.map_filter (call_triple defs funcs m) (c # cs))"
    by (cases "call_triple defs funcs m c")
      (simp_all add: call_step_eq [of defs funcs m em c] map_filter_simps)
  finally show ?case .
qed

lemma collectEdges_step:
  "readFile file = Some t \<Longrightarrow> map_of ffm file = Some (scanDefs file t) \<Longrightarrow>
   collectEdges readFile defs ffm (file # files) em =
     collectEdges readFile defs ffm files (foldl add_edge em (file_triples readFile defs file))"
  by (simp add: exec_all_callRegex foldl_call_step file_triples_def scanCalls_def textOf_def)

lemma collectEdges_readable:
  "\<forall>f\<in>set files. readFile f \<noteq> None \<and> map_of ffm f = Some (scanDefs f (textOf readFile f)) \<Longrightarrow>
   collectEdges readFile defs ffm files em =
     Inr (foldl add_edge em (all_triples readFile defs files))"
proof (induction files arbitrary: em)
  case Nil
  show ?case by (simp add: all_triples_def)
next
  case (Cons fl fls)
  from Cons.prems obtain t where t: "readFile fl = Some t" by auto
  with Cons.prems have m: "map_of ffm fl = Some (scanDefs fl t)" by (simp add: textOf_def)
  from Cons.prems have rest: "\<forall>f\<in>set fls. readFile f \<noteq> None \<and>
      map_of ffm f = Some (scanDefs f (textOf readFile f))"
    by simp
  show ?case
    by (simp only: collectEdges_step [of readFile fl t, OF t m] Cons.IH [OF rest]) (simp add: all_triples_def)
qed

lemma set_js_set: "set (js_set acc xs) = set acc \<union> set xs"
  by (induction xs arbitrary: acc) auto

text \<open>A run gives a graph exactly when every file can be read, and then this one.\<close>

lemma callGraph_readable:
  assumes "\<forall>f\<in>set files. readFile f \<noteq> None"
  shows "callGraph readFile files =
     Inr \<lparr>modules = js_set [] (map (\<lambda>(k, d). module d) (symbolTable readFile files)),
          edges = map snd (edgesMap_of readFile files)\<rparr>"
proof -
  obtain defs ffm where p: "defsPhase readFile files ([], []) = (defs, ffm)"
    by (cases "defsPhase readFile files ([], [])")
  have c1: "collectDefs readFile files ([], []) = Inr (defs, ffm)"
    using collectDefs_readable [OF assms, of "([], [])"] p by simp
  have defs: "defs = symbolTable readFile files"
    using fst_defsPhase [of readFile files "[]" "[]"] p by (simp add: symbolTable_def)
  have "\<forall>f\<in>set files. readFile f \<noteq> None \<and>
      map_of ffm f = Some (scanDefs f (textOf readFile f))"
    using assms map_of_snd_defsPhase [of readFile files "[]" "[]"] p by simp
  from collectEdges_readable [OF this, of defs "[]"]
  have c2: "collectEdges readFile (symbolTable readFile files) ffm files [] =
      Inr (edgesMap_of readFile files)"
    by (simp add: edgesMap_of_def defs)
  show ?thesis by (simp add: callGraph_def c1 c2 defs)
qed

lemma callGraph_Inr:
  assumes "callGraph readFile files = Inr g"
  shows "\<forall>f\<in>set files. readFile f \<noteq> None"
proof -
  from assms obtain r where "collectDefs readFile files ([], []) = Inr r"
    by (cases "collectDefs readFile files ([], [])") (simp_all add: callGraph_def)
  from collectDefs_Inr [OF this] show ?thesis by simp
qed

subsection \<open>The edge map\<close>

lemma map_of_add_edge:
  "map_of (add_edge em (a, b, n)) k =
     (if k = edge_key a b
      then Some (case map_of em k of
                   None \<Rightarrow> \<lparr>fromModule = a, toModule = b, functions = [n]\<rparr>
                 | Some e \<Rightarrow> if n \<in> set (functions e) then e
                             else e\<lparr>functions := functions e @ [n]\<rparr>)
      else map_of em k)"
proof (cases "map_of em (edge_key a b)")
  case None
  then show ?thesis by (simp add: add_edge_def Let_def update_conv')
next
  case (Some e)
  then show ?thesis by (simp add: add_edge_def Let_def update_conv')
qed

lemma distinct_add_edge: "distinct (map fst em) \<Longrightarrow> distinct (map fst (add_edge em t))"
proof -
  assume d: "distinct (map fst em)"
  obtain a b n where t: "t = (a, b, n)" by (cases t)
  show ?thesis
  proof (cases "map_of em (edge_key a b)")
    case None
    then show ?thesis using d by (simp add: t add_edge_def Let_def update_conv' distinct_update)
  next
    case (Some e)
    then show ?thesis using d by (simp add: t add_edge_def Let_def distinct_update)
  qed
qed

lemma distinct_edges: "distinct (map fst (foldl add_edge [] ts))"
  by (induction ts rule: rev_induct) (simp_all add: distinct_add_edge)

text \<open>Every triple is on the edge stored under its key.\<close>

lemma triple_on_edge:
  "(a, b, n) \<in> set ts \<Longrightarrow>
   \<exists>e. map_of (foldl add_edge [] ts) (edge_key a b) = Some e \<and> n \<in> set (functions e)"
proof (induction ts rule: rev_induct)
  case Nil
  then show ?case by simp
next
  case (snoc t ts)
  obtain a' b' n' where t: "t = (a', b', n')" by (cases t)
  let ?em = "foldl add_edge [] ts"
  show ?case
  proof (cases "(a, b, n) = t")
    case True
    then have "a' = a" "b' = b" "n' = n" using t by simp_all
    then show ?thesis
      by (cases "map_of ?em (edge_key a b)") (simp_all add: t map_of_add_edge)
  next
    case False
    with snoc.prems have "(a, b, n) \<in> set ts" by simp
    from snoc.IH [OF this] obtain e where
      e: "map_of ?em (edge_key a b) = Some e" "n \<in> set (functions e)"
      by (elim exE conjE)
    show ?thesis
    proof (cases "edge_key a b = edge_key a' b'")
      case True
      then have "map_of ?em (edge_key a' b') = Some e" using e(1) by simp
      then show ?thesis using e(2) True by (simp add: t map_of_add_edge)
    next
      case False
      then show ?thesis using e by (simp add: t map_of_add_edge)
    qed
  qed
qed

text \<open>
  An edge is stored under the key of its two modules, these come from a triple, and its
  functions are the names of the triples with that key.
\<close>

lemma edge_of_key:
  "map_of (foldl add_edge [] ts) k = Some e \<Longrightarrow>
   k = edge_key (fromModule e) (toModule e) \<and>
   (\<exists>n. (fromModule e, toModule e, n) \<in> set ts) \<and>
   set (functions e) = {n. \<exists>a b. (a, b, n) \<in> set ts \<and> edge_key a b = k}"
proof (induction ts arbitrary: e rule: rev_induct)
  case Nil
  then show ?case by simp
next
  case (snoc t ts)
  obtain a b n where t: "t = (a, b, n)" by (cases t)
  let ?em = "foldl add_edge [] ts"
  let ?names = "\<lambda>ts. {n. \<exists>a b. (a, b, n) \<in> set ts \<and> edge_key a b = k}"
  show ?case
  proof (cases "k = edge_key a b")
    case False
    with snoc.prems have old: "map_of ?em k = Some e" by (simp add: t map_of_add_edge)
    from snoc.IH [OF old] have ih: "k = edge_key (fromModule e) (toModule e)"
      "\<exists>n. (fromModule e, toModule e, n) \<in> set ts" "set (functions e) = ?names ts"
      by simp_all
    have "?names (ts @ [t]) = ?names ts" using False by (auto simp: t)
    with ih show ?thesis by auto
  next
    case True
    show ?thesis
    proof (cases "map_of ?em k")
      case None
      with snoc.prems True have e: "e = \<lparr>fromModule = a, toModule = b, functions = [n]\<rparr>"
        by (simp add: t map_of_add_edge)
      have "?names ts = {}"
      proof (rule ccontr)
        assume "?names ts \<noteq> {}"
        then obtain a' b' n' where "(a', b', n') \<in> set ts" "edge_key a' b' = k" by auto
        with triple_on_edge [of a' b' n' ts] None show False by auto
      qed
      then have "?names (ts @ [t]) = {n}" using True by (auto simp: t)
      with e True show ?thesis by (auto simp: t)
    next
      case (Some e0)
      from snoc.IH [OF Some] have ih: "k = edge_key (fromModule e0) (toModule e0)"
        "\<exists>n. (fromModule e0, toModule e0, n) \<in> set ts" "set (functions e0) = ?names ts"
        by simp_all
      from snoc.prems True Some have
        e: "e = (if n \<in> set (functions e0) then e0 else e0\<lparr>functions := functions e0 @ [n]\<rparr>)"
        by (simp add: t map_of_add_edge)
      then have ft: "fromModule e = fromModule e0" "toModule e = toModule e0"
        and fs: "set (functions e) = insert n (set (functions e0))"
        by auto
      have "?names (ts @ [t]) = insert n (?names ts)" using True by (auto simp: t)
      with ih ft fs show ?thesis by auto
    qed
  qed
qed

lemma edge_in_map:
  "e \<in> set (map snd (foldl add_edge [] ts)) \<longleftrightarrow> (\<exists>k. map_of (foldl add_edge [] ts) k = Some e)"
proof
  assume "e \<in> set (map snd (foldl add_edge [] ts))"
  then obtain k where "(k, e) \<in> set (foldl add_edge [] ts)" by auto
  then have "map_of (foldl add_edge [] ts) k = Some e"
    using distinct_edges [of ts] by (simp add: map_of_eq_Some_iff)
  then show "\<exists>k. map_of (foldl add_edge [] ts) k = Some e" by (rule exI)
next
  assume "\<exists>k. map_of (foldl add_edge [] ts) k = Some e"
  then obtain k where "map_of (foldl add_edge [] ts) k = Some e" by (elim exE)
  then have "(k, e) \<in> set (foldl add_edge [] ts)" by (rule map_of_SomeD)
  then show "e \<in> set (map snd (foldl add_edge [] ts))" by force
qed

subsection \<open>Keys\<close>

lemma edge_key_inj:
  assumes "CHR ''>'' \<notin> set a" and "CHR ''>'' \<notin> set a'" and "edge_key a b = edge_key a' b'"
  shows "a = a' \<and> b = b'"
proof -
  have tw: "\<And>x y. CHR ''>'' \<notin> set x \<Longrightarrow>
      takeWhile (\<lambda>c. c \<noteq> CHR ''>'') (edge_key x y) = x @ ''-''"
  proof -
    fix x y :: string
    assume "CHR ''>'' \<notin> set x"
    then have "\<forall>c\<in>set (x @ ''-''). c \<noteq> CHR ''>''" by auto
    then have "takeWhile (\<lambda>c. c \<noteq> CHR ''>'') ((x @ ''-'') @ (CHR ''>'' # y)) = x @ ''-''"
      by (intro takeWhile_prefix) simp_all
    then show "takeWhile (\<lambda>c. c \<noteq> CHR ''>'') (edge_key x y) = x @ ''-''"
      by (simp add: edge_key_def)
  qed
  from assms(3) tw [OF assms(1), of b] tw [OF assms(2), of b'] have "a @ ''-'' = a' @ ''-''"
    by simp
  then have "a = a'" by simp
  with assms(3) show ?thesis by (simp add: edge_key_def)
qed

subsection \<open>The triples of a run\<close>

lemma in_map_filter:
  "y \<in> set (List.map_filter g xs) \<longleftrightarrow> (\<exists>x\<in>set xs. g x = Some y)"
  by (induction xs) (auto split: option.splits)

lemma file_triples_iff:
  "(a, b, n) \<in> set (file_triples readFile defs f) \<longleftrightarrow>
     a = moduleName_of f \<and>
     (\<exists>i d. (i, n) \<in> set (scanCalls (textOf readFile f)) \<and> map_of defs n = Some d \<and>
        b = module d \<and> moduleName_of f \<noteq> module d)"
proof -
  have m: "\<And>i. module (callerFunc (scanDefs f (textOf readFile f)) (moduleName_of f) i) =
      moduleName_of f"
    by (rule callerFunc_module) (simp add: scanDefs_module)
  have ct: "\<And>i n'. call_triple defs (scanDefs f (textOf readFile f)) (moduleName_of f) (i, n') =
      (case map_of defs n' of None \<Rightarrow> None
       | Some d \<Rightarrow> if moduleName_of f = module d then None
                   else Some (moduleName_of f, module d, n'))"
    by (simp add: call_triple_def m split: option.splits)
  show ?thesis
  proof
    assume "(a, b, n) \<in> set (file_triples readFile defs f)"
    then obtain c where c: "c \<in> set (scanCalls (textOf readFile f))"
      "call_triple defs (scanDefs f (textOf readFile f)) (moduleName_of f) c = Some (a, b, n)"
      unfolding file_triples_def in_map_filter by (elim bexE)
    obtain i n' where cn: "c = (i, n')" by (cases c)
    from c(2) obtain d where "map_of defs n' = Some d" "moduleName_of f \<noteq> module d"
      "a = moduleName_of f" "b = module d" "n = n'"
      unfolding cn ct by (auto split: option.splits if_splits)
    with c(1) cn show "a = moduleName_of f \<and>
     (\<exists>i d. (i, n) \<in> set (scanCalls (textOf readFile f)) \<and> map_of defs n = Some d \<and>
        b = module d \<and> moduleName_of f \<noteq> module d)"
      by auto
  next
    assume "a = moduleName_of f \<and>
     (\<exists>i d. (i, n) \<in> set (scanCalls (textOf readFile f)) \<and> map_of defs n = Some d \<and>
        b = module d \<and> moduleName_of f \<noteq> module d)"
    then obtain i d where r: "a = moduleName_of f" "(i, n) \<in> set (scanCalls (textOf readFile f))"
      "map_of defs n = Some d" "b = module d" "moduleName_of f \<noteq> module d"
      by (elim exE conjE)
    have "call_triple defs (scanDefs f (textOf readFile f)) (moduleName_of f) (i, n) =
        Some (a, b, n)"
      using r by (simp add: ct)
    with r(2) show "(a, b, n) \<in> set (file_triples readFile defs f)"
      unfolding file_triples_def in_map_filter by (intro bexI [of _ "(i, n)"])
  qed
qed

lemma all_triples_iff:
  "t \<in> set (all_triples readFile defs files) \<longleftrightarrow>
     (\<exists>f\<in>set files. t \<in> set (file_triples readFile defs f))"
  by (auto simp: all_triples_def)

section \<open>Example 1\<close>

text \<open>
  C1. With \<^verbatim>\<open>a.c\<close> holding \<^verbatim>\<open>int main(){ bar(); }\<close> and \<^verbatim>\<open>b.c\<close> holding
  \<^verbatim>\<open>void bar(){}\<close>, the graph has the modules \<open>a\<close> and \<open>b\<close> and exactly one edge, from
  \<open>a\<close> to \<open>b\<close>, with the functions \<open>[bar]\<close>: in either order of the two files, and from
  the folder that holds them.
\<close>

theorem example1_graph:
  "callGraph example1 [''/proj/a.c'', ''/proj/b.c''] =
     Inr \<lparr>modules = [''a'', ''b''],
          edges = [\<lparr>fromModule = ''a'', toModule = ''b'', functions = [''bar'']\<rparr>]\<rparr>
   \<and> callGraph example1 [''/proj/b.c'', ''/proj/a.c''] =
     Inr \<lparr>modules = [''b'', ''a''],
          edges = [\<lparr>fromModule = ''a'', toModule = ''b'', functions = [''bar'']\<rparr>]\<rparr>
   \<and> generate example1_tree ''/proj'' example1 =
     Inr \<lparr>modules = [''a'', ''b''],
          edges = [\<lparr>fromModule = ''a'', toModule = ''b'', functions = [''bar'']\<rparr>]\<rparr>"
  by code_simp

section \<open>The edges and the modules\<close>

lemma example1_run:
  "callGraph example1 [''/proj/a.c'', ''/proj/b.c''] =
     Inr \<lparr>modules = [''a'', ''b''],
          edges = [\<lparr>fromModule = ''a'', toModule = ''b'', functions = [''bar'']\<rparr>]\<rparr>"
  by code_simp

lemma edge_from_triple:
  assumes "callGraph readFile files = Inr g" and "e \<in> set (edges g)"
  shows "\<exists>n. (fromModule e, toModule e, n) \<in>
           set (all_triples readFile (symbolTable readFile files) files)"
proof -
  from callGraph_Inr [OF assms(1)] have "\<forall>f\<in>set files. readFile f \<noteq> None" .
  from callGraph_readable [OF this] assms(1)
  have "edges g = map snd (edgesMap_of readFile files)" by auto
  with assms(2) have "e \<in> set (map snd (foldl add_edge []
      (all_triples readFile (symbolTable readFile files) files)))"
    by (simp add: edgesMap_of_def)
  from this [unfolded edge_in_map] obtain k where
    "map_of (foldl add_edge [] (all_triples readFile (symbolTable readFile files) files)) k =
       Some e"
    by (elim exE)
  from edge_of_key [OF this] show ?thesis by simp
qed

lemma modules_of_graph:
  assumes "callGraph readFile files = Inr g"
  shows "set (modules g) = {module d |n d. map_of (symbolTable readFile files) n = Some d}"
proof -
  from callGraph_Inr [OF assms(1)] have "\<forall>f\<in>set files. readFile f \<noteq> None" .
  from callGraph_readable [OF this] assms(1)
  have m: "modules g = js_set [] (map (\<lambda>(k, d). module d) (symbolTable readFile files))"
    by auto
  have d: "distinct (map fst (symbolTable readFile files))"
    unfolding symbolTable_def by (rule distinct_addDefs) simp
  have "set (modules g) = (\<lambda>(k, d). module d) ` set (symbolTable readFile files)"
    by (simp add: m set_js_set)
  also have "\<dots> = {module d |n d. (n, d) \<in> set (symbolTable readFile files)}"
    by force
  also have "\<dots> = {module d |n d. map_of (symbolTable readFile files) n = Some d}"
    using d by (simp add: map_of_eq_Some_iff)
  finally show ?thesis .
qed

text \<open>
  C2, as the code has it. Every edge of the graph ends at a module of \<open>modules\<close>, joins two
  different modules, and starts at the module of one of the files of the run (which owns
  a definition of the symbol table or not).
\<close>

theorem edges_between_modules:
  assumes "callGraph readFile files = Inr g" and "e \<in> set (edges g)"
  shows "toModule e \<in> set (modules g) \<and> fromModule e \<noteq> toModule e \<and>
         fromModule e \<in> moduleName_of ` set files"
proof -
  from edge_from_triple [OF assms] obtain n where
    "(fromModule e, toModule e, n) \<in>
       set (all_triples readFile (symbolTable readFile files) files)"
    by (elim exE)
  from this [unfolded all_triples_iff] obtain f where f: "f \<in> set files"
    "(fromModule e, toModule e, n) \<in>
       set (file_triples readFile (symbolTable readFile files) f)"
    by (elim bexE)
  from f(2) [unfolded file_triples_iff] obtain i d where
    t: "fromModule e = moduleName_of f" "map_of (symbolTable readFile files) n = Some d"
      "toModule e = module d" "moduleName_of f \<noteq> module d"
    by (elim exE conjE)
  have "toModule e \<in> set (modules g)"
    unfolding modules_of_graph [OF assms(1)] using t(2,3) by auto
  with t f(1) show ?thesis by auto
qed

theorem edges_between_modules_witness:
  "callGraph example1 [''/proj/a.c'', ''/proj/b.c''] =
     Inr \<lparr>modules = [''a'', ''b''],
          edges = [\<lparr>fromModule = ''a'', toModule = ''b'', functions = [''bar'']\<rparr>]\<rparr>
   \<and> ''b'' \<in> set [''a'', ''b''] \<and> ''a'' \<noteq> ''b''
   \<and> ''a'' \<in> moduleName_of ` set [''/proj/a.c'', ''/proj/b.c'']"
  using example1_run
    edges_between_modules [OF example1_run,
      of "\<lparr>fromModule = ''a'', toModule = ''b'', functions = [''bar'']\<rparr>"]
  by simp

text \<open>
  C2 as stated fails: \<^verbatim>\<open>a.c\<close> holds no definition and calls \<open>bar\<close> of \<^verbatim>\<open>b.c\<close>, so the edge
  starts at \<open>a\<close>, which is not in \<open>modules\<close>.
\<close>

theorem edge_from_undeclared_module:
  "callGraph example2 [''/proj/a.c'', ''/proj/b.c''] =
     Inr \<lparr>modules = [''b''],
          edges = [\<lparr>fromModule = ''a'', toModule = ''b'', functions = [''bar'']\<rparr>]\<rparr>
   \<and> fromModule \<lparr>fromModule = ''a'', toModule = ''b'', functions = [''bar'']\<rparr>
       \<notin> set [''b'']"
  by code_simp

section \<open>Attribution of a call to its caller\<close>

lemma funcsInFile_scanDefs:
  assumes "collectDefs readFile files ([], []) = Inr (defs, fileFuncMap)"
    and "map_of fileFuncMap fl = Some funcs"
  shows "fl \<in> set files \<and> funcs = scanDefs fl (textOf readFile fl)"
proof -
  from collectDefs_Inr [OF assms(1)]
  have "(defs, fileFuncMap) = defsPhase readFile files ([], [])" by simp
  then have "fileFuncMap = snd (defsPhase readFile files ([], []))" by (metis snd_conv)
  with assms(2) map_of_snd_defsPhase [of readFile files "[]" "[]" fl]
  show ?thesis by (cases "fl \<in> set files") simp_all
qed

lemma symbolTable_collectDefs:
  assumes "collectDefs readFile files ([], []) = Inr (defs, fileFuncMap)"
  shows "defs = symbolTable readFile files"
proof -
  from collectDefs_Inr [OF assms(1)]
  have "(defs, fileFuncMap) = defsPhase readFile files ([], [])" by simp
  then have "defs = fst (defsPhase readFile files ([], []))" by (metis fst_conv)
  then show ?thesis by (simp add: fst_defsPhase symbolTable_def)
qed

lemma sorted_last_greatest:
  "sorted_wrt (\<lambda>x y. start x < start y) fs \<Longrightarrow> f \<in> set fs \<Longrightarrow> start f \<le> start (last fs)"
proof (induction fs)
  case Nil
  then show ?case by simp
next
  case (Cons a fs)
  show ?case
  proof (cases "fs = []")
    case True
    with Cons.prems show ?thesis by simp
  next
    case False
    then have l: "last (a # fs) = last fs" by simp
    from False have "last fs \<in> set fs" by simp
    with Cons.prems(1) have "start a < start (last fs)" by simp
    moreover have "f \<in> set fs \<Longrightarrow> start f \<le> start (last fs)"
      using Cons.IH Cons.prems(1) by simp
    ultimately show ?thesis using Cons.prems(2) l by auto
  qed
qed

lemma callerFunc_greatest:
  assumes "sorted_wrt (<) (map start funcs)"
  shows "if \<exists>f\<in>set funcs. start f \<le> i
         then callerFunc funcs m i \<in> set funcs \<and> start (callerFunc funcs m i) \<le> i \<and>
              (\<forall>f\<in>set funcs. start f \<le> i \<longrightarrow> start f \<le> start (callerFunc funcs m i))
         else callerFunc funcs m i = \<lparr>name = ''<module>'', module = m, start = 0\<rparr>"
proof -
  let ?fs = "filter (\<lambda>f. start f \<le> i) funcs"
  from assms have "sorted_wrt (\<lambda>x y. start x < start y) funcs"
    by (simp add: sorted_wrt_map)
  then have s: "sorted_wrt (\<lambda>x y. start x < start y) ?fs" by (rule sorted_wrt_filter)
  show ?thesis
  proof (cases "?fs = []")
    case True
    then have "\<not> (\<exists>f\<in>set funcs. start f \<le> i)" by (auto simp: filter_empty_conv)
    moreover have "callerFunc funcs m i = \<lparr>name = ''<module>'', module = m, start = 0\<rparr>"
      using True by (simp add: callerFunc_def)
    ultimately show ?thesis by simp
  next
    case False
    then have ex: "\<exists>f\<in>set funcs. start f \<le> i" by (auto simp: filter_empty_conv)
    from False have c: "callerFunc funcs m i = last ?fs"
      by (cases ?fs) (simp_all add: callerFunc_def)
    from False have "last ?fs \<in> set ?fs" by (rule last_in_set)
    then have a: "callerFunc funcs m i \<in> set funcs" "start (callerFunc funcs m i) \<le> i"
      using c by simp_all
    have "\<forall>f\<in>set funcs. start f \<le> i \<longrightarrow> start f \<le> start (callerFunc funcs m i)"
    proof (intro ballI impI)
      fix f assume "f \<in> set funcs" "start f \<le> i"
      then have "f \<in> set ?fs" by simp
      from sorted_last_greatest [OF s this] show "start f \<le> start (callerFunc funcs m i)"
        using c by simp
    qed
    with ex a show ?thesis by simp
  qed
qed

text \<open>
  C3, as the code has it. A call at offset \<open>offset\<close> of a file is attributed to the
  definition of the file's \<open>fileFuncMap\<close> entry with the greatest start not above
  \<open>offset\<close>; when there is none, to a pseudo-function of the file's module with start 0,
  whose name is \<^verbatim>\<open><module>\<close>.
\<close>

theorem call_attribution:
  assumes "collectDefs readFile files ([], []) = Inr (defs, fileFuncMap)"
    and "map_of fileFuncMap fl = Some funcsInFile"
  shows "if \<exists>f\<in>set funcsInFile. start f \<le> offset
         then callerFunc funcsInFile (moduleName_of fl) offset \<in> set funcsInFile \<and>
              start (callerFunc funcsInFile (moduleName_of fl) offset) \<le> offset \<and>
              (\<forall>f\<in>set funcsInFile. start f \<le> offset \<longrightarrow>
                 start f \<le> start (callerFunc funcsInFile (moduleName_of fl) offset))
         else callerFunc funcsInFile (moduleName_of fl) offset =
                \<lparr>name = ''<module>'', module = moduleName_of fl, start = 0\<rparr>"
proof -
  from funcsInFile_scanDefs [OF assms]
  have "funcsInFile = scanDefs fl (textOf readFile fl)" by simp
  then have "sorted_wrt (<) (map start funcsInFile)" by (simp add: scanDefs_sorted)
  then show ?thesis by (rule callerFunc_greatest)
qed

lemma example1_defs:
  "collectDefs example1 [''/proj/a.c'', ''/proj/b.c''] ([], []) =
     Inr ([(''main'', \<lparr>name = ''main'', module = ''a'', start = 0\<rparr>),
           (''bar'', \<lparr>name = ''bar'', module = ''b'', start = 0\<rparr>)],
          [(''/proj/a.c'', [\<lparr>name = ''main'', module = ''a'', start = 0\<rparr>]),
           (''/proj/b.c'', [\<lparr>name = ''bar'', module = ''b'', start = 0\<rparr>])])"
  by code_simp

lemma example1_funcs_a:
  "map_of [(''/proj/a.c'', [\<lparr>name = ''main'', module = ''a'', start = 0\<rparr>]),
           (''/proj/b.c'', [\<lparr>name = ''bar'', module = ''b'', start = 0\<rparr>])] ''/proj/a.c'' =
     Some [\<lparr>name = ''main'', module = ''a'', start = 0\<rparr>]"
  by simp

text \<open>The call of \<open>bar\<close> at offset 12 of \<^verbatim>\<open>a.c\<close> in Example 1 is attributed to \<open>main\<close>.\<close>

theorem call_attribution_witness:
  "collectDefs example1 [''/proj/a.c'', ''/proj/b.c''] ([], []) =
     Inr ([(''main'', \<lparr>name = ''main'', module = ''a'', start = 0\<rparr>),
           (''bar'', \<lparr>name = ''bar'', module = ''b'', start = 0\<rparr>)],
          [(''/proj/a.c'', [\<lparr>name = ''main'', module = ''a'', start = 0\<rparr>]),
           (''/proj/b.c'', [\<lparr>name = ''bar'', module = ''b'', start = 0\<rparr>])])
   \<and> callerFunc [\<lparr>name = ''main'', module = ''a'', start = 0\<rparr>]
       (moduleName_of ''/proj/a.c'') 12 = \<lparr>name = ''main'', module = ''a'', start = 0\<rparr>"
  using example1_defs
    call_attribution [OF example1_defs example1_funcs_a, of 12]
  by simp

text \<open>
  C3 as stated fails in the name of the pseudo-function: for the call at offset 0 of a file
  without definitions it is \<^verbatim>\<open><module>\<close>, not \<^verbatim>\<open><module-level>\<close>.
\<close>

theorem pseudo_function_name:
  "collectDefs example3 [''/proj/a.c''] ([], []) = Inr ([], [(''/proj/a.c'', [])])
   \<and> callerFunc [] (moduleName_of ''/proj/a.c'') 0 =
       \<lparr>name = ''<module>'', module = ''a'', start = 0\<rparr>
   \<and> name (callerFunc [] (moduleName_of ''/proj/a.c'') 0) \<noteq> ''<module-level>''"
  by code_simp

end
